theory Spec2Isabelle
  imports Main
begin

section \<open>JavaScript values\<close>

text \<open>
  The values that reach the listener registry and the menu action registrar. Numbers are
  integers, objects are association lists of their own data properties, arrays are lists.
  A function has an identity and no own properties: \<open>UserFn k\<close> is the \<open>k\<close>-th function
  supplied by the app, \<open>MenuAction n func\<close> and \<open>EmptyAction n\<close> are the two closures that
  \<open>createMenuAction\<close> builds, \<open>n\<close> telling one closure from the next.
\<close>

datatype jsval =
    JUndefined
  | JNull
  | JBool bool
  | JNum int
  | JStr string
  | JArr "jsval list"
  | JObj "(string \<times> jsval) list"
  | UserFn nat
  | MenuAction nat jsval
  | EmptyAction nat

datatype error = TypeError | Thrown

text \<open>\<open>if (v)\<close>: the values that count as true.\<close>

fun truthy :: "jsval \<Rightarrow> bool" where
  "truthy JUndefined = False"
| "truthy JNull = False"
| "truthy (JBool b) = b"
| "truthy (JNum n) = (n \<noteq> 0)"
| "truthy (JStr s) = (s \<noteq> [])"
| "truthy _ = True"

text \<open>\<open>typeof v === 'function'\<close>.\<close>

fun is_function :: "jsval \<Rightarrow> bool" where
  "is_function (UserFn k) = True"
| "is_function (MenuAction n func) = True"
| "is_function (EmptyAction n) = True"
| "is_function _ = False"

text \<open>
  \<open>v.name\<close> for a value \<open>v\<close> that is neither \<open>undefined\<close> nor \<open>null\<close>, and for the names
  the code reads (\<open>params\<close>, \<open>data\<close>, \<open>id\<close>, \<open>remove\<close>): an object gives its field, any other
  value gives \<open>undefined\<close>.
\<close>

fun field :: "string \<Rightarrow> jsval \<Rightarrow> jsval" where
  "field name (JObj fs) = (case map_of fs name of None \<Rightarrow> JUndefined | Some v \<Rightarrow> v)"
| "field name _ = JUndefined"

text \<open>
  The argument list that \<open>f.apply(void 0, v)\<close> passes: none for \<open>undefined\<close> and \<open>null\<close>,
  the elements of an array, a TypeError for a primitive. Array-like objects are arrays in
  this model, so a plain object or a function has no indexed element to pass.
\<close>

fun spread :: "jsval \<Rightarrow> error + jsval list" where
  "spread JUndefined = Inr []"
| "spread JNull = Inr []"
| "spread (JArr xs) = Inr xs"
| "spread (JBool b) = Inl TypeError"
| "spread (JNum n) = Inl TypeError"
| "spread (JStr s) = Inl TypeError"
| "spread _ = Inr []"

section \<open>The listener registry\<close>

text \<open>
  \<open>this._listeners\<close> maps an event name to an array object. Arrays are kept in a store and
  named by their position in it, so that an array that \<open>removeAll\<close> has replaced is still
  there for a loop that is running over it. \<open>closures\<close> counts the closures built so far,
  \<open>calls\<close> records every call of an app function with its arguments, in order.
  Event names are names that the registry object does not inherit (not \<open>length\<close>,
  \<open>push\<close> and the like).
\<close>

record world =
  listeners :: "string \<rightharpoonup> nat"
  arrays :: "jsval list list"
  closures :: nat
  calls :: "(nat \<times> jsval list) list"

text \<open>\<open>function Listeners () { this._listeners = []; }\<close>\<close>

definition Listeners :: world where
  "Listeners = \<lparr>listeners = Map.empty, arrays = [], closures = 0, calls = []\<rparr>"

definition array_at :: "world \<Rightarrow> nat \<Rightarrow> jsval list" where
  "array_at w a = (if a < length (arrays w) then arrays w ! a else [])"

text \<open>\<open>arr[i]\<close>, which is \<open>undefined\<close> beyond the end of the array.\<close>

definition elem :: "world \<Rightarrow> nat \<Rightarrow> nat \<Rightarrow> jsval" where
  "elem w a i = (if i < length (array_at w a) then array_at w a ! i else JUndefined)"

text \<open>\<open>this._listeners[event]\<close> as a list, \<open>None\<close> when it is \<open>undefined\<close>.\<close>

definition slots :: "world \<Rightarrow> string \<Rightarrow> jsval list option" where
  "slots w event = (case listeners w event of None \<Rightarrow> None | Some a \<Rightarrow> Some (array_at w a))"

text \<open>
  \<open>add\<close>: a missing sequence is created first, then the callback is stored at index
  \<open>length\<close>, which is returned. For a missing sequence that index is 0.
\<close>

definition add :: "string \<Rightarrow> jsval \<Rightarrow> world \<Rightarrow> nat \<times> world" where
  "add event callback w =
     (case listeners w event of
        None \<Rightarrow>
          (0, w\<lparr>listeners := (listeners w)(event \<mapsto> length (arrays w)),
                arrays := arrays w @ [[callback]]\<rparr>)
      | Some a \<Rightarrow>
          (length (array_at w a),
           w\<lparr>arrays := (arrays w)[a := array_at w a @ [callback]]\<rparr>))"

text \<open>
  \<open>remove\<close>: nothing happens when the event has no sequence or the slot reads as
  \<open>undefined\<close>; otherwise the slot is overwritten with \<open>false\<close>.
\<close>

definition remove :: "string \<Rightarrow> nat \<Rightarrow> world \<Rightarrow> world" where
  "remove event index w =
     (case listeners w event of
        None \<Rightarrow> w
      | Some a \<Rightarrow>
          if elem w a index = JUndefined then w
          else w\<lparr>arrays := (arrays w)[a := (array_at w a)[index := JBool False]]\<rparr>)"

text \<open>
  \<open>removeAll\<close>: the argument is an event name or is omitted (\<open>None\<close>). \<open>!event\<close> holds for
  the omitted argument and for the empty string.
\<close>

definition removeAll :: "string option \<Rightarrow> world \<Rightarrow> world" where
  "removeAll event w =
     (case event of
        None \<Rightarrow> w\<lparr>listeners := Map.empty\<rparr>
      | Some name \<Rightarrow>
          if name = [] then w\<lparr>listeners := Map.empty\<rparr>
          else w\<lparr>listeners := (listeners w)(name \<mapsto> length (arrays w)),
                 arrays := arrays w @ [[]]\<rparr>)"

section \<open>Calling functions\<close>

text \<open>
  What an app function does when it is called is given from outside: the registry
  operations it performs, in order, and then the value it returns or the exception it
  throws. The operations are \<open>add\<close>, \<open>remove\<close> and \<open>removeAll\<close>; an app function that
  calls \<open>notify\<close> itself is not covered.
\<close>

datatype op = OpAdd string jsval | OpRemove string nat | OpRemoveAll "string option"

type_synonym env = "nat \<Rightarrow> jsval list \<Rightarrow> op list \<times> (error + jsval)"

fun run_op :: "world \<Rightarrow> op \<Rightarrow> world" where
  "run_op w (OpAdd event callback) = snd (add event callback w)"
| "run_op w (OpRemove event index) = remove event index w"
| "run_op w (OpRemoveAll event) = removeAll event w"

definition run_ops :: "op list \<Rightarrow> world \<Rightarrow> world" where
  "run_ops ops w = foldl run_op w ops"

text \<open>
  \<open>f(args)\<close>. The closure of \<open>createMenuAction\<close> is \<open>function(data) { func(data.id); }\<close>:
  reading \<open>data.id\<close> throws for \<open>undefined\<close> and \<open>null\<close>, the result of \<open>func\<close> is dropped.
  Calling a value that is not a function throws. An exception is not caught anywhere in
  this code, so it ends the run and no world is kept after it.
\<close>

fun invoke :: "env \<Rightarrow> jsval \<Rightarrow> jsval list \<Rightarrow> world \<Rightarrow> error + (jsval \<times> world)" where
  "invoke env (UserFn k) args w =
     (case snd (env k args) of
        Inl e \<Rightarrow> Inl e
      | Inr r \<Rightarrow> Inr (r, run_ops (fst (env k args)) (w\<lparr>calls := calls w @ [(k, args)]\<rparr>)))"
| "invoke env (MenuAction n func) args w =
     (let data = (case args of [] \<Rightarrow> JUndefined | d # _ \<Rightarrow> d)
      in if data = JUndefined \<or> data = JNull then Inl TypeError
         else case invoke env func [field ''id'' data] w of
                Inl e \<Rightarrow> Inl e
              | Inr (r, w') \<Rightarrow> Inr (JUndefined, w'))"
| "invoke env (EmptyAction n) args w = Inr (JUndefined, w)"
| "invoke env _ args w = Inl TypeError"

section \<open>jQuery.each over an array\<close>

text \<open>
  \<open>jQuery.each(arr, fn)\<close> reads the length once, then calls \<open>fn(i, arr[i])\<close> for every
  index below it, reading each element when its turn comes, and stops early only when
  \<open>fn\<close> returns \<open>false\<close>. Over \<open>undefined\<close> it calls nothing (jQuery before 1.12 throws a
  TypeError there). The loop body gets the index, the element and the local variables of
  the enclosing function with the world, and gives back its return value with the new
  ones.
\<close>

fun each_loop ::
  "(nat \<Rightarrow> jsval \<Rightarrow> 's \<times> world \<Rightarrow> error + (jsval \<times> 's \<times> world)) \<Rightarrow> nat \<Rightarrow> nat list \<Rightarrow>
   's \<times> world \<Rightarrow> error + ('s \<times> world)" where
  "each_loop body a [] s = Inr s"
| "each_loop body a (i # rest) s =
     (case body i (elem (snd s) a i) s of
        Inl e \<Rightarrow> Inl e
      | Inr (r, s') \<Rightarrow> if r = JBool False then Inr s' else each_loop body a rest s')"

definition each ::
  "(nat \<Rightarrow> jsval \<Rightarrow> 's \<times> world \<Rightarrow> error + (jsval \<times> 's \<times> world)) \<Rightarrow> nat option \<Rightarrow>
   's \<times> world \<Rightarrow> error + ('s \<times> world)" where
  "each body target s =
     (case target of
        None \<Rightarrow> Inr s
      | Some a \<Rightarrow> each_loop body a [0..<length (array_at (snd s) a)] s)"

section \<open>notify\<close>

text \<open>
  One entry per call that \<open>notify\<close> makes: the slot it read, the function found there, the
  arguments passed and the value returned.
\<close>

record invocation =
  slot :: nat
  callee :: jsval
  arguments :: "jsval list"
  returned :: jsval

text \<open>\<open>data && data.params && data.params === true\<close>\<close>

definition positional :: "jsval \<Rightarrow> bool" where
  "positional data \<longleftrightarrow>
     truthy data \<and> truthy (field ''params'' data) \<and> field ''params'' data = JBool True"

text \<open>
  The function handed to \<open>jQuery.each\<close>. Its local state is \<open>returnValue\<close> and the entries
  so far. It has no \<open>return\<close>, so it returns \<open>undefined\<close>.
\<close>

definition notify_body ::
  "env \<Rightarrow> jsval \<Rightarrow> nat \<Rightarrow> jsval \<Rightarrow> (bool \<times> invocation list) \<times> world \<Rightarrow>
   error + (jsval \<times> (bool \<times> invocation list) \<times> world)" where
  "notify_body env data i e s =
     (let returnValue = fst (fst s); seen = snd (fst s); w = snd s in
      if truthy e \<and> is_function e then
        if positional data then
          (case spread (field ''data'' data) of
             Inl err \<Rightarrow> Inl err
           | Inr args \<Rightarrow>
               (case invoke env e args w of
                  Inl err \<Rightarrow> Inl err
                | Inr (r, w') \<Rightarrow>
                    Inr (JUndefined,
                         ((if r = JBool False then False else returnValue),
                          seen @ [\<lparr>slot = i, callee = e, arguments = args, returned = r\<rparr>]),
                         w')))
        else
          (case invoke env e [data] w of
             Inl err \<Rightarrow> Inl err
           | Inr (r, w') \<Rightarrow>
               Inr (JUndefined,
                    ((if r = JBool False then False else returnValue),
                     seen @ [\<lparr>slot = i, callee = e, arguments = [data], returned = r\<rparr>]),
                    w'))
      else Inr (JUndefined, (returnValue, seen), w))"

definition notify ::
  "env \<Rightarrow> string \<Rightarrow> jsval \<Rightarrow> world \<Rightarrow> error + (bool \<times> invocation list \<times> world)" where
  "notify env event data w =
     (case listeners w event of
        None \<Rightarrow> Inr (True, [], w)
      | Some a \<Rightarrow>
          (case each (notify_body env data) (Some a) ((True, []), w) of
             Inl err \<Rightarrow> Inl err
           | Inr ((returnValue, seen), w') \<Rightarrow> Inr (returnValue, seen, w')))"

text \<open>
  The parts of a result of \<open>notify\<close>: the calls made, the value returned and the world
  left. A thrown exception has none.
\<close>

definition invocations :: "error + (bool \<times> invocation list \<times> world) \<Rightarrow> invocation list" where
  "invocations res = (case res of Inl err \<Rightarrow> [] | Inr (b, seen, w) \<Rightarrow> seen)"

definition verdict :: "error + (bool \<times> invocation list \<times> world) \<Rightarrow> bool option" where
  "verdict res = (case res of Inl err \<Rightarrow> None | Inr (b, seen, w) \<Rightarrow> Some b)"

definition world_after :: "error + (bool \<times> invocation list \<times> world) \<Rightarrow> world option" where
  "world_after res = (case res of Inl err \<Rightarrow> None | Inr (b, seen, w) \<Rightarrow> Some w)"

section \<open>removeByCallback\<close>

text \<open>
  The function handed to \<open>$.each\<close> compares the element with the callback by \<open>===\<close>, which
  for functions is identity (data values are compared by content here). On a match it calls \<open>this.remove(event, i)\<close>, where \<open>this\<close> is
  the element, as \<open>$.each\<close> calls its function on the element; then it returns \<open>true\<close> to
  \<open>$.each\<close>, which goes on. \<open>removeByCallback\<close> itself ends in \<open>return false\<close>.
\<close>

definition removeByCallback_body ::
  "env \<Rightarrow> string \<Rightarrow> jsval \<Rightarrow> nat \<Rightarrow> jsval \<Rightarrow> unit \<times> world \<Rightarrow>
   error + (jsval \<times> unit \<times> world)" where
  "removeByCallback_body env event callback i e s =
     (if e = callback then
        (case invoke env (field ''remove'' e) [JStr event, JNum (int i)] (snd s) of
           Inl err \<Rightarrow> Inl err
         | Inr (r, w') \<Rightarrow> Inr (JBool True, (), w'))
      else Inr (JUndefined, (), snd s))"

definition removeByCallback ::
  "env \<Rightarrow> string \<Rightarrow> jsval \<Rightarrow> world \<Rightarrow> error + (bool \<times> world)" where
  "removeByCallback env event callback w =
     (case each (removeByCallback_body env event callback) (listeners w event) ((), w) of
        Inl err \<Rightarrow> Inl err
      | Inr (u, w') \<Rightarrow> Inr (False, w'))"

section \<open>registerMenuActionGroup\<close>

record menu_action =
  label :: string
  icon :: "string option"
  callback :: jsval

record action_group =
  app :: string
  group_label :: string
  group_icon :: "string option"
  actions :: "menu_action list"

text \<open>
  \<open>createMenuAction(func)\<close> builds a new closure: the adapter around \<open>func\<close> when \<open>func\<close>
  is a function, an empty function otherwise.
\<close>

definition createMenuAction :: "jsval \<Rightarrow> world \<Rightarrow> jsval \<times> world" where
  "createMenuAction func w =
     ((if is_function func then MenuAction (closures w) func else EmptyAction (closures w)),
      w\<lparr>closures := Suc (closures w)\<rparr>)"

text \<open>One turn of \<open>for (var i=0; i<typeNames.length; i++)\<close>.\<close>

definition register_step :: "action_group \<Rightarrow> string list \<Rightarrow> world \<Rightarrow> nat \<Rightarrow> world" where
  "register_step grp typeNames w i =
     (let (menuAction, w1) = createMenuAction (callback (actions grp ! i)) w
      in snd (add (typeNames ! i) menuAction w1))"

definition register_all :: "action_group \<Rightarrow> string list \<Rightarrow> world \<Rightarrow> world" where
  "register_all grp typeNames w = foldl (register_step grp typeNames) w [0..<length typeNames]"

text \<open>
  The function that \<open>registerMenuActionGroup\<close> hands to \<open>AppAPI.request\<close> as its callback,
  run on the list of event type names that the host sent back. The warning on the console
  changes nothing and is left out.
\<close>

definition on_type_names ::
  "action_group \<Rightarrow> jsval \<Rightarrow> env \<Rightarrow> string list \<Rightarrow> world \<Rightarrow> error + world" where
  "on_type_names grp completion env typeNames w =
     (if length typeNames \<noteq> length (actions grp) then Inr w
      else case invoke env completion [JArr (map JStr typeNames)] (register_all grp typeNames w) of
             Inl err \<Rightarrow> Inl err
           | Inr (r, w') \<Rightarrow> Inr w')"

text \<open>
  A call of \<open>AppAPI.request(callSpec, data, callback)\<close>, as the three arguments it is
  given. \<open>AppAPI.request\<close> itself belongs to another file.
\<close>

record request =
  callSpec :: string
  payload :: action_group
  on_reply :: "env \<Rightarrow> string list \<Rightarrow> world \<Rightarrow> error + world"

definition registerMenuActionGroup :: "action_group \<Rightarrow> jsval \<Rightarrow> request" where
  "registerMenuActionGroup grp completion =
     \<lparr>callSpec = ''register-menu-action-group'',
      payload = grp,
      on_reply = on_type_names grp completion\<rparr>"

text \<open>Whether a group descriptor holds a function in one of its actions.\<close>

definition carries_callback :: "action_group \<Rightarrow> bool" where
  "carries_callback grp = list_ex (\<lambda>a. is_function (callback a)) (actions grp)"

section \<open>Notions used in the statements\<close>

text \<open>\<open>this._listeners[event][j]\<close>, read as \<open>undefined\<close> where the sequence or the slot is missing.\<close>

definition listener_at :: "world \<Rightarrow> string \<Rightarrow> nat \<Rightarrow> jsval" where
  "listener_at w event j = (case listeners w event of None \<Rightarrow> JUndefined | Some a \<Rightarrow> elem w a j)"

text \<open>
  The registry names only arrays that are in the store, and two event names never share
  an array. The empty registry is so, and every operation keeps it so.
\<close>

definition well_formed :: "world \<Rightarrow> bool" where
  "well_formed w \<longleftrightarrow>
     (\<forall>e a. listeners w e = Some a \<longrightarrow> a < length (arrays w)) \<and>
     (\<forall>e e' a. listeners w e = Some a \<longrightarrow> listeners w e' = Some a \<longrightarrow> e = e')"

text \<open>
  The arguments a callback gets from \<open>notify\<close>, for both branches of the test on \<open>data\<close>.
\<close>

definition passed_arguments :: "jsval \<Rightarrow> error + jsval list" where
  "passed_arguments data = (if positional data then spread (field ''data'' data) else Inr [data])"

text \<open>
  How the store of arrays may change while callbacks run: arrays are added, an array gets
  longer, and a slot that is there keeps its value or becomes \<open>false\<close>.
\<close>

definition grows :: "world \<Rightarrow> world \<Rightarrow> bool" where
  "grows w w' \<longleftrightarrow>
     length (arrays w) \<le> length (arrays w') \<and>
     (\<forall>a < length (arrays w).
        length (arrays w ! a) \<le> length (arrays w' ! a) \<and>
        (\<forall>i < length (arrays w ! a).
           arrays w' ! a ! i = arrays w ! a ! i \<or> arrays w' ! a ! i = JBool False))"

text \<open>The number of slots in all the arrays of the store.\<close>

definition total_slots :: "world \<Rightarrow> nat" where
  "total_slots w = sum_list (map length (arrays w))"

text \<open>
  The closure that the \<open>i\<close>-th turn of the loop of \<open>registerMenuActionGroup\<close> builds when
  the loop starts in \<open>w\<close>: the \<open>i\<close>-th closure after those that \<open>w\<close> has counted.
\<close>

definition menu_action_of :: "action_group \<Rightarrow> world \<Rightarrow> nat \<Rightarrow> jsval" where
  "menu_action_of grp w i =
     fst (createMenuAction (callback (actions grp ! i)) (w\<lparr>closures := closures w + i\<rparr>))"

text \<open>
  The entries that calling \<open>e\<close> with \<open>args\<close> adds to the record of calls of app
  functions, when the call returns: its own for an app function, those of the wrapped
  function called with \<open>data.id\<close> for an adapter, none for an empty function.
\<close>

fun recorded_calls :: "jsval \<Rightarrow> jsval list \<Rightarrow> (nat \<times> jsval list) list" where
  "recorded_calls (UserFn k) args = [(k, args)]"
| "recorded_calls (MenuAction n func) args =
     (case args of
        [] \<Rightarrow> []
      | d # _ \<Rightarrow> if d = JUndefined \<or> d = JNull then [] else recorded_calls func [field ''id'' d])"
| "recorded_calls _ args = []"

section \<open>Example inputs\<close>

text \<open>App functions that do nothing and return \<open>undefined\<close>.\<close>

definition quiet_env :: env where
  "quiet_env k args = ([], Inr JUndefined)"

text \<open>App function 1 vetoes; the others return \<open>undefined\<close>. None touches the registry.\<close>

definition veto_env :: env where
  "veto_env k args = ([], Inr (if k = 1 then JBool False else JUndefined))"

text \<open>
  App function 0 adds function 1 as a listener for \<open>x\<close> and removes slot 1 of \<open>x\<close>, from
  inside its call; the others do nothing.
\<close>

definition reentrant_env :: env where
  "reentrant_env k args =
     (if k = 0 then ([OpAdd ''x'' (UserFn 1), OpRemove ''x'' 1], Inr JUndefined)
      else ([], Inr JUndefined))"

text \<open>The registry after \<open>add('x', f0); add('x', f1)\<close>.\<close>

definition two_listeners :: world where
  "two_listeners = run_ops [OpAdd ''x'' (UserFn 0), OpAdd ''x'' (UserFn 1)] Listeners"

text \<open>The registry after three calls of \<open>add\<close> for \<open>x\<close> and \<open>remove('x', 1)\<close>.\<close>

definition after_removal :: world where
  "after_removal =
     run_ops [OpAdd ''x'' (UserFn 1), OpAdd ''x'' (UserFn 0), OpAdd ''x'' (UserFn 2),
              OpRemove ''x'' 1] Listeners"

text \<open>\<open>{params: true, data: [7, 'a']}\<close> and \<open>{params: true}\<close>.\<close>

definition positional_data :: jsval where
  "positional_data = JObj [(''params'', JBool True), (''data'', JArr [JNum 7, JStr ''a''])]"

definition marker_only :: jsval where
  "marker_only = JObj [(''params'', JBool True)]"

text \<open>\<open>{id: 'el-5'}\<close>\<close>

definition element_payload :: jsval where
  "element_payload = JObj [(''id'', JStr ''el-5'')]"

definition three_actions :: action_group where
  "three_actions =
     \<lparr>app = ''images'', group_label = ''Image'', group_icon = None,
      actions = [\<lparr>label = ''Crop'', icon = None, callback = UserFn 1\<rparr>,
                 \<lparr>label = ''Rotate'', icon = None, callback = UserFn 2\<rparr>,
                 \<lparr>label = ''Delete'', icon = None, callback = UserFn 3\<rparr>]\<rparr>"

section \<open>Facts about the operations\<close>

lemma is_function_truthy: "is_function e \<Longrightarrow> truthy e"
  by (cases e) simp_all

lemma grows_refl: "grows w w"
  by (simp add: grows_def)

lemma grows_trans: "grows w1 w2 \<Longrightarrow> grows w2 w3 \<Longrightarrow> grows w1 w3"
proof -
  assume g12: "grows w1 w2" and g23: "grows w2 w3"
  have len: "length (arrays w1) \<le> length (arrays w3)"
    using g12 g23 by (simp add: grows_def)
  have "length (arrays w1 ! a) \<le> length (arrays w3 ! a) \<and>
        (\<forall>i < length (arrays w1 ! a).
           arrays w3 ! a ! i = arrays w1 ! a ! i \<or> arrays w3 ! a ! i = JBool False)"
    if a: "a < length (arrays w1)" for a
  proof -
    have a2: "a < length (arrays w2)" using a g12 by (simp add: grows_def)
    have l12: "length (arrays w1 ! a) \<le> length (arrays w2 ! a)"
      using a g12 by (simp add: grows_def)
    have l23: "length (arrays w2 ! a) \<le> length (arrays w3 ! a)"
      using a2 g23 by (simp add: grows_def)
    have "arrays w3 ! a ! i = arrays w1 ! a ! i \<or> arrays w3 ! a ! i = JBool False"
      if i: "i < length (arrays w1 ! a)" for i
    proof -
      have i2: "i < length (arrays w2 ! a)" using i l12 by simp
      have "arrays w2 ! a ! i = arrays w1 ! a ! i \<or> arrays w2 ! a ! i = JBool False"
        using a i g12 by (simp add: grows_def)
      moreover have "arrays w3 ! a ! i = arrays w2 ! a ! i \<or> arrays w3 ! a ! i = JBool False"
        using a2 i2 g23 by (simp add: grows_def)
      ultimately show ?thesis by auto
    qed
    then show ?thesis using l12 l23 by simp
  qed
  then show ?thesis using len by (simp add: grows_def)
qed

lemma grows_calls: "grows w (w\<lparr>calls := c\<rparr>)"
  by (simp add: grows_def)

lemma grows_add: "grows w (snd (add event cb w))"
  by (auto simp: grows_def add_def array_at_def nth_append nth_list_update split: option.splits)

lemma grows_remove: "grows w (remove event i w)"
  by (auto simp: grows_def remove_def array_at_def elem_def nth_list_update split: option.splits)

lemma grows_removeAll: "grows w (removeAll event w)"
  by (auto simp: grows_def removeAll_def nth_append split: option.splits)

lemma grows_run_op: "grows w (run_op w x)"
  by (cases x) (simp_all add: grows_add grows_remove grows_removeAll)

lemma grows_run_ops: "grows w (run_ops ops w)"
  unfolding run_ops_def
proof (induction ops arbitrary: w)
  case Nil
  show ?case by (simp add: grows_refl)
next
  case (Cons x ops)
  have "grows w (run_op w x)" by (rule grows_run_op)
  moreover have "grows (run_op w x) (foldl run_op (run_op w x) ops)" by (rule Cons.IH)
  ultimately show ?case using grows_trans by simp
qed

lemma grows_invoke: "invoke env e args w = Inr (r, w') \<Longrightarrow> grows w w'"
proof (induction env e args w arbitrary: r w' rule: invoke.induct)
  case (1 env k args w)
  then have "w' = run_ops (fst (env k args)) (w\<lparr>calls := calls w @ [(k, args)]\<rparr>)"
    by (auto split: sum.splits)
  then show ?case
    using grows_trans [OF grows_calls grows_run_ops] by simp
next
  case (2 env n func args w)
  then show ?case
    by (auto simp: Let_def split: if_splits sum.splits)
next
  case (3 env n args w)
  then show ?case by (simp add: grows_refl)
qed simp_all


lemma notify_body_eq:
  "notify_body env data i e s =
     (if is_function e then
        (case passed_arguments data of
           Inl err \<Rightarrow> Inl err
         | Inr args \<Rightarrow>
             (case invoke env e args (snd s) of
                Inl err \<Rightarrow> Inl err
              | Inr (r, w') \<Rightarrow>
                  Inr (JUndefined,
                       ((if r = JBool False then False else fst (fst s)),
                        snd (fst s) @ [\<lparr>slot = i, callee = e, arguments = args, returned = r\<rparr>]),
                       w')))
      else Inr (JUndefined, fst s, snd s))"
  by (auto simp: notify_body_def passed_arguments_def Let_def is_function_truthy
           split: sum.splits)

lemma notify_body_step:
  assumes "notify_body env data i e ((rv, seen), w) = Inr (r, (rv', seen'), w')"
  shows "r = JUndefined \<and> grows w w' \<and>
         ((\<not> is_function e \<and> rv' = rv \<and> seen' = seen \<and> w' = w) \<or>
          (is_function e \<and>
           (\<exists>args res. passed_arguments data = Inr args \<and> invoke env e args w = Inr (res, w') \<and>
              rv' = (rv \<and> res \<noteq> JBool False) \<and>
              seen' = seen @ [\<lparr>slot = i, callee = e, arguments = args, returned = res\<rparr>])))"
  using assms
  by (auto simp: notify_body_eq grows_refl split: if_splits sum.splits dest: grows_invoke)

lemma positional_iff: "positional data \<longleftrightarrow> field ''params'' data = JBool True"
  by (cases data) (auto simp: positional_def)

lemma grows_elem:
  assumes "grows w u" and "i < length (array_at w a)"
  shows "elem u a i = array_at w a ! i \<or> elem u a i = JBool False"
proof -
  from assms(2) have a: "a < length (arrays w)"
    by (auto simp: array_at_def split: if_splits)
  then have au: "a < length (arrays u)" using assms(1) by (simp add: grows_def)
  have i: "i < length (arrays w ! a)" using assms(2) a by (simp add: array_at_def)
  then have iu: "i < length (arrays u ! a)" using assms(1) a by (auto simp: grows_def)
  have "arrays u ! a ! i = arrays w ! a ! i \<or> arrays u ! a ! i = JBool False"
    using assms(1) a i by (simp add: grows_def)
  then show ?thesis using a au i iu by (simp add: elem_def array_at_def)
qed

lemma grows_elem_function:
  assumes "grows w u" and "i < length (array_at w a)" and "is_function (elem u a i)"
  shows "elem u a i = array_at w a ! i"
  using grows_elem [OF assms(1,2)] assms(3) by auto

lemma notify_loop:
  assumes "each_loop (notify_body env data) a idx ((rv, seen), w) = Inr ((rv', seen'), w')"
    and "sorted_wrt (<) idx"
  shows "grows w w' \<and>
         (\<exists>new. seen' = seen @ new \<and>
            sorted_wrt (<) (map slot new) \<and> slot ` set new \<subseteq> set idx \<and>
            rv' = (rv \<and> (\<forall>x \<in> set new. returned x \<noteq> JBool False)) \<and>
            (\<forall>x \<in> set new. is_function (callee x) \<and> passed_arguments data = Inr (arguments x) \<and>
               (\<exists>u u'. grows w u \<and> callee x = elem u a (slot x) \<and>
                  invoke env (callee x) (arguments x) u = Inr (returned x, u'))))"
  using assms
proof (induction idx arbitrary: rv seen w)
  case Nil
  then show ?case by (simp add: grows_refl)
next
  case (Cons i rest)
  from Cons.prems obtain r rv1 seen1 w1 where
    body: "notify_body env data i (elem w a i) ((rv, seen), w) = Inr (r, (rv1, seen1), w1)"
    by (auto split: sum.splits)
  note step = notify_body_step [OF body]
  from step have r: "r = JUndefined" and g1: "grows w w1" by simp_all
  from Cons.prems body r have
    rest: "each_loop (notify_body env data) a rest ((rv1, seen1), w1) = Inr ((rv', seen'), w')"
    by simp
  from Cons.prems(2) have srest: "sorted_wrt (<) rest" and lt: "\<forall>j \<in> set rest. i < j"
    by simp_all
  from Cons.IH [OF rest srest] obtain new where
    g2: "grows w1 w'" and seen': "seen' = seen1 @ new" and
    sub: "sorted_wrt (<) (map slot new)" "slot ` set new \<subseteq> set rest" and
    rv': "rv' = (rv1 \<and> (\<forall>x \<in> set new. returned x \<noteq> JBool False))" and
    each: "\<forall>x \<in> set new. is_function (callee x) \<and> passed_arguments data = Inr (arguments x) \<and>
               (\<exists>u u'. grows w1 u \<and> callee x = elem u a (slot x) \<and>
                  invoke env (callee x) (arguments x) u = Inr (returned x, u'))"
    by blast
  have each': "\<forall>x \<in> set new. is_function (callee x) \<and> passed_arguments data = Inr (arguments x) \<and>
               (\<exists>u u'. grows w u \<and> callee x = elem u a (slot x) \<and>
                  invoke env (callee x) (arguments x) u = Inr (returned x, u'))"
    using each g1 grows_trans by blast
  have g: "grows w w'" using g1 g2 by (rule grows_trans)
  from step consider
    (skip) "\<not> is_function (elem w a i)" "rv1 = rv" "seen1 = seen" |
    (call) args res where "is_function (elem w a i)" "passed_arguments data = Inr args"
      "invoke env (elem w a i) args w = Inr (res, w1)"
      "rv1 = (rv \<and> res \<noteq> JBool False)"
      "seen1 = seen @ [\<lparr>slot = i, callee = elem w a i, arguments = args, returned = res\<rparr>]"
    by blast
  then show ?case
  proof cases
    case skip
    then show ?thesis using g seen' sub rv' each' by (intro conjI exI [of _ new]) auto
  next
    case call
    let ?x = "\<lparr>slot = i, callee = elem w a i, arguments = args, returned = res\<rparr>"
    have "\<exists>u u'. grows w u \<and> callee ?x = elem u a (slot ?x) \<and>
            invoke env (callee ?x) (arguments ?x) u = Inr (returned ?x, u')"
      using grows_refl call(3) by auto
    moreover have "sorted_wrt (<) (map slot (?x # new))"
      using sub lt by auto
    ultimately show ?thesis using g seen' sub(2) rv' each' call
      by (intro conjI exI [of _ "?x # new"]) auto
  qed
qed


lemma notify_cases:
  assumes "notify env event data w = Inr (b, seen, w')"
  shows "(listeners w event = None \<and> b \<and> seen = [] \<and> w' = w) \<or>
         (\<exists>a. listeners w event = Some a \<and>
            each_loop (notify_body env data) a [0..<length (array_at w a)] ((True, []), w)
              = Inr ((b, seen), w'))"
  using assms by (auto simp: notify_def each_def split: option.splits sum.splits)

lemma notify_entries:
  assumes "notify env event data w = Inr (b, seen, w')"
  shows "grows w w' \<and> b = (\<forall>x \<in> set seen. returned x \<noteq> JBool False) \<and>
         sorted_wrt (<) (map slot seen) \<and>
         (\<forall>x \<in> set seen.
            is_function (callee x) \<and> passed_arguments data = Inr (arguments x) \<and>
            (\<exists>xs. slots w event = Some xs \<and> slot x < length xs \<and> callee x = xs ! slot x) \<and>
            (\<exists>u u'. grows w u \<and> invoke env (callee x) (arguments x) u = Inr (returned x, u')))"
  using notify_cases [OF assms]
proof (elim disjE exE conjE)
  assume "listeners w event = None" b "seen = []" "w' = w"
  then show ?thesis by (simp add: grows_refl)
next
  fix a
  assume a: "listeners w event = Some a"
    and loop: "each_loop (notify_body env data) a [0..<length (array_at w a)] ((True, []), w)
              = Inr ((b, seen), w')"
  have srt: "sorted_wrt (<) [0..<length (array_at w a)]" by simp
  from notify_loop [OF loop srt] obtain new where
    g: "grows w w'" and new: "seen = new" and
    s1: "sorted_wrt (<) (map slot new)" and s2: "slot ` set new \<subseteq> set [0..<length (array_at w a)]" and
    b: "b = (\<forall>x \<in> set new. returned x \<noteq> JBool False)" and
    each: "\<forall>x \<in> set new. is_function (callee x) \<and> passed_arguments data = Inr (arguments x) \<and>
               (\<exists>u u'. grows w u \<and> callee x = elem u a (slot x) \<and>
                  invoke env (callee x) (arguments x) u = Inr (returned x, u'))"
    by auto
  have sl: "slots w event = Some (array_at w a)" using a by (simp add: slots_def)
  have "is_function (callee x) \<and> passed_arguments data = Inr (arguments x) \<and>
        (\<exists>xs. slots w event = Some xs \<and> slot x < length xs \<and> callee x = xs ! slot x) \<and>
        (\<exists>u u'. grows w u \<and> invoke env (callee x) (arguments x) u = Inr (returned x, u'))"
    if x: "x \<in> set seen" for x
  proof -
    from x new s2 have lt: "slot x < length (array_at w a)" by auto
    from x new each obtain u u' where
      f: "is_function (callee x)" and p: "passed_arguments data = Inr (arguments x)" and
      gu: "grows w u" and c: "callee x = elem u a (slot x)" and
      i: "invoke env (callee x) (arguments x) u = Inr (returned x, u')"
      by blast
    from grows_elem_function [OF gu lt] f c have "callee x = array_at w a ! slot x" by simp
    then show ?thesis using f p sl lt gu i by blast
  qed
  then show ?thesis using g b new s1 by blast
qed


lemma array_at_cong: "arrays u = arrays w \<Longrightarrow> array_at u a = array_at w a"
  by (simp add: array_at_def)

lemma elem_cong: "arrays u = arrays w \<Longrightarrow> elem u a i = elem w a i"
  by (simp add: elem_def array_at_def)

lemma filter_nth_upt: "map ((!) xs) (filter (\<lambda>i. P (xs ! i)) [0..<length xs]) = filter P xs"
proof -
  have "filter P (map ((!) xs) [0..<length xs]) = map ((!) xs) (filter (P \<circ> (!) xs) [0..<length xs])"
    by (rule filter_map)
  then show ?thesis by (simp add: map_nth comp_def)
qed

lemma notify_loop_returns:
  assumes "\<forall>e \<in> set xs. is_function e \<longrightarrow> (\<forall>u. \<exists>r u'. invoke env e args u = Inr (r, u'))"
    and "passed_arguments data = Inr args"
    and "xs = array_at w0 a"
    and "grows w0 w"
    and "\<forall>i \<in> set idx. i < length xs"
  shows "\<exists>res. each_loop (notify_body env data) a idx ((rv, seen), w) = Inr res"
  using assms(4,5)
proof (induction idx arbitrary: rv seen w)
  case Nil
  then show ?case by simp
next
  case (Cons i rest)
  have i: "i < length (array_at w0 a)" using Cons.prems(2) assms(3) by simp
  show ?case
  proof (cases "is_function (elem w a i)")
    case False
    then have "notify_body env data i (elem w a i) ((rv, seen), w) = Inr (JUndefined, (rv, seen), w)"
      by (simp add: notify_body_eq)
    moreover have "\<exists>res. each_loop (notify_body env data) a rest ((rv, seen), w) = Inr res"
      using Cons.IH [OF Cons.prems(1)] Cons.prems(2) by simp
    ultimately show ?thesis by simp
  next
    case True
    from grows_elem_function [OF Cons.prems(1) i True] have "elem w a i \<in> set xs"
      using i assms(3) by simp
    with assms(1) True obtain r w1 where inv: "invoke env (elem w a i) args w = Inr (r, w1)"
      by blast
    have g: "grows w0 w1" using Cons.prems(1) grows_invoke [OF inv] by (rule grows_trans)
    let ?rv = "if r = JBool False then False else rv"
    let ?seen = "seen @ [\<lparr>slot = i, callee = elem w a i, arguments = args, returned = r\<rparr>]"
    have "notify_body env data i (elem w a i) ((rv, seen), w) = Inr (JUndefined, (?rv, ?seen), w1)"
      using True inv assms(2) by (simp add: notify_body_eq)
    moreover have "\<exists>res. each_loop (notify_body env data) a rest ((?rv, ?seen), w1) = Inr res"
      using Cons.IH [OF g] Cons.prems(2) by simp
    ultimately show ?thesis by simp
  qed
qed

lemma notify_returns:
  assumes "\<forall>xs. slots w event = Some xs \<longrightarrow>
            (\<forall>e \<in> set xs. is_function e \<longrightarrow> (\<forall>u. \<exists>r u'. invoke env e args u = Inr (r, u')))"
    and "passed_arguments data = Inr args"
  shows "\<exists>b seen w'. notify env event data w = Inr (b, seen, w')"
proof (cases "listeners w event")
  case None
  then have "notify env event data w = Inr (True, [], w)" by (simp add: notify_def)
  then show ?thesis by blast
next
  case (Some a)
  then have "slots w event = Some (array_at w a)" by (simp add: slots_def)
  with assms(1) have
    h: "\<forall>e \<in> set (array_at w a). is_function e \<longrightarrow> (\<forall>u. \<exists>r u'. invoke env e args u = Inr (r, u'))"
    by blast
  have "\<forall>i \<in> set [0..<length (array_at w a)]. i < length (array_at w a)" by simp
  from notify_loop_returns [OF h assms(2) refl grows_refl this]
  obtain res where
    "each_loop (notify_body env data) a [0..<length (array_at w a)] ((True, []), w) = Inr res"
    by blast
  then show ?thesis using Some by (cases res) (auto simp: notify_def each_def)
qed

lemma notify_loop_plain:
  assumes "\<forall>e \<in> set xs. is_function e \<longrightarrow>
             (\<forall>u. \<exists>r u'. invoke env e args u = Inr (r, u') \<and>
                arrays u' = arrays u \<and> listeners u' = listeners u)"
    and "passed_arguments data = Inr args"
    and "xs = array_at w a"
    and "\<forall>i \<in> set idx. i < length xs"
  shows "\<exists>rv' new w'.
           each_loop (notify_body env data) a idx ((rv, seen), w) = Inr ((rv', seen @ new), w') \<and>
           arrays w' = arrays w \<and> listeners w' = listeners w \<and>
           map slot new = filter (\<lambda>i. is_function (xs ! i)) idx \<and>
           map callee new = map ((!) xs) (filter (\<lambda>i. is_function (xs ! i)) idx) \<and>
           (\<forall>x \<in> set new. arguments x = args)"
  using assms(3,4)
proof (induction idx arbitrary: rv seen w)
  case Nil
  then show ?case by simp
next
  case (Cons i rest)
  have i: "i < length xs" using Cons.prems(2) by simp
  have e: "elem w a i = xs ! i" using i Cons.prems(1) by (simp add: elem_def)
  have restlt: "\<forall>i \<in> set rest. i < length xs" using Cons.prems(2) by simp
  show ?case
  proof (cases "is_function (xs ! i)")
    case False
    then have "notify_body env data i (elem w a i) ((rv, seen), w) = Inr (JUndefined, (rv, seen), w)"
      by (simp add: notify_body_eq e)
    moreover from Cons.IH [OF Cons.prems(1) restlt, of rv seen] obtain rv' new w' where
      "each_loop (notify_body env data) a rest ((rv, seen), w) = Inr ((rv', seen @ new), w')"
      "arrays w' = arrays w" "listeners w' = listeners w"
      "map slot new = filter (\<lambda>i. is_function (xs ! i)) rest"
      "map callee new = map ((!) xs) (filter (\<lambda>i. is_function (xs ! i)) rest)"
      "\<forall>x \<in> set new. arguments x = args"
      by blast
    ultimately show ?thesis using False
      by (intro exI [of _ rv'] exI [of _ new] exI [of _ w']) simp
  next
    case True
    have "xs ! i \<in> set xs" using i by simp
    with assms(1) True obtain r w1 where
      inv: "invoke env (xs ! i) args w = Inr (r, w1)" and
      same: "arrays w1 = arrays w" "listeners w1 = listeners w"
      by blast
    let ?rv = "if r = JBool False then False else rv"
    let ?x = "\<lparr>slot = i, callee = xs ! i, arguments = args, returned = r\<rparr>"
    have body: "notify_body env data i (elem w a i) ((rv, seen), w)
                  = Inr (JUndefined, (?rv, seen @ [?x]), w1)"
      using True inv assms(2) by (simp add: notify_body_eq e)
    have xs1: "xs = array_at w1 a" using Cons.prems(1) same(1) by (simp add: array_at_def)
    from Cons.IH [OF xs1 restlt, of ?rv "seen @ [?x]"] obtain rv' new w' where
      "each_loop (notify_body env data) a rest ((?rv, seen @ [?x]), w1)
         = Inr ((rv', (seen @ [?x]) @ new), w')"
      "arrays w' = arrays w1" "listeners w' = listeners w1"
      "map slot new = filter (\<lambda>i. is_function (xs ! i)) rest"
      "map callee new = map ((!) xs) (filter (\<lambda>i. is_function (xs ! i)) rest)"
      "\<forall>x \<in> set new. arguments x = args"
      by blast
    then show ?thesis using body True same
      by (intro exI [of _ rv'] exI [of _ "?x # new"] exI [of _ w']) simp
  qed
qed

lemma notify_plain:
  assumes "slots w event = Some xs"
    and "\<forall>e \<in> set xs. is_function e \<longrightarrow>
             (\<forall>u. \<exists>r u'. invoke env e args u = Inr (r, u') \<and>
                arrays u' = arrays u \<and> listeners u' = listeners u)"
    and "passed_arguments data = Inr args"
  shows "\<exists>b seen w'.
           notify env event data w = Inr (b, seen, w') \<and>
           arrays w' = arrays w \<and> listeners w' = listeners w \<and>
           map slot seen = filter (\<lambda>i. is_function (xs ! i)) [0..<length xs] \<and>
           map callee seen = filter is_function xs \<and>
           (\<forall>x \<in> set seen. arguments x = args)"
proof -
  from assms(1) obtain a where a: "listeners w event = Some a" and xs: "xs = array_at w a"
    by (auto simp: slots_def split: option.splits)
  have "\<forall>i \<in> set [0..<length xs]. i < length xs" by simp
  from notify_loop_plain [OF assms(2,3) xs this, of True "[]"] obtain rv' new w' where
    "each_loop (notify_body env data) a [0..<length xs] ((True, []), w) = Inr ((rv', [] @ new), w')"
    "arrays w' = arrays w" "listeners w' = listeners w"
    "map slot new = filter (\<lambda>i. is_function (xs ! i)) [0..<length xs]"
    "map callee new = map ((!) xs) (filter (\<lambda>i. is_function (xs ! i)) [0..<length xs])"
    "\<forall>x \<in> set new. arguments x = args"
    by blast
  then show ?thesis using a xs
    by (intro exI [of _ rv'] exI [of _ new] exI [of _ w'])
       (simp add: notify_def each_def filter_nth_upt)
qed

text \<open>The definitions that running the registry on a given input unfolds.\<close>

lemmas eval_defs = notify_def each_def notify_body_def positional_def run_ops_def add_def remove_def
  removeAll_def Listeners_def array_at_def elem_def slots_def invocations_def verdict_def world_after_def
  two_listeners_def

lemma well_formed_Listeners: "well_formed Listeners"
  by (simp add: well_formed_def Listeners_def)

lemma well_formed_add: "well_formed w \<Longrightarrow> well_formed (snd (add event cb w))"
  unfolding well_formed_def add_def
  by (auto split: option.splits if_splits simp: less_Suc_eq)

lemma well_formed_remove: "well_formed w \<Longrightarrow> well_formed (remove event i w)"
  unfolding well_formed_def remove_def
  by (auto split: option.splits)

lemma well_formed_removeAll: "well_formed w \<Longrightarrow> well_formed (removeAll event w)"
  unfolding well_formed_def removeAll_def
  by (auto split: option.splits if_splits simp: less_Suc_eq)

lemma add_keeps_listener:
  assumes "listener_at w ev j = v" and "v \<noteq> JUndefined"
  shows "listener_at (snd (add e cb w)) ev j = v"
proof -
  from assms obtain a where a: "listeners w ev = Some a" and el: "elem w a j = v"
    by (auto simp: listener_at_def split: option.splits)
  from el assms(2) have j: "j < length (array_at w a)"
    by (auto simp: elem_def split: if_splits)
  then have al: "a < length (arrays w)"
    by (auto simp: array_at_def split: if_splits)
  show ?thesis
  proof (cases "listeners w e")
    case None
    then have "ev \<noteq> e" using a by auto
    then show ?thesis using None a el j al
      by (simp add: add_def listener_at_def elem_def array_at_def nth_append)
  next
    case (Some b)
    then show ?thesis using a el j al
      by (auto simp: add_def listener_at_def elem_def array_at_def nth_append nth_list_update)
  qed
qed

lemma add_stores_listener:
  assumes "well_formed w"
  shows "listener_at (snd (add e cb w)) e (fst (add e cb w)) = cb"
proof (cases "listeners w e")
  case None
  then show ?thesis
    by (simp add: add_def listener_at_def elem_def array_at_def)
next
  case (Some a)
  then have "a < length (arrays w)" using assms unfolding well_formed_def by blast
  then show ?thesis using Some
    by (simp add: add_def listener_at_def elem_def array_at_def)
qed

lemma add_calls: "calls (snd (add e cb w)) = calls w"
  by (simp add: add_def split: option.splits)

lemma add_closures: "closures (snd (add e cb w)) = closures w"
  by (simp add: add_def split: option.splits)

lemma add_total_slots:
  assumes "well_formed w"
  shows "total_slots (snd (add e cb w)) = Suc (total_slots w)"
proof (cases "listeners w e")
  case None
  then show ?thesis by (simp add: add_def total_slots_def)
next
  case (Some a)
  then have a: "a < length (arrays w)" using assms unfolding well_formed_def by blast
  have "sum_list ((map length (arrays w))[a := Suc (length (arrays w ! a))])
          = sum_list (map length (arrays w)) + Suc (length (arrays w ! a)) - map length (arrays w) ! a"
    using a by (simp add: sum_list_update)
  then show ?thesis using Some a
    by (simp add: add_def total_slots_def array_at_def map_update)
qed

lemma register_step_eq:
  "register_step grp typeNames w i =
     snd (add (typeNames ! i)
            (if is_function (callback (actions grp ! i)) then MenuAction (closures w) (callback (actions grp ! i))
             else EmptyAction (closures w))
            (w\<lparr>closures := Suc (closures w)\<rparr>))"
  by (simp add: register_step_def createMenuAction_def)

lemma well_formed_closures: "well_formed (w\<lparr>closures := n\<rparr>) = well_formed w"
  by (simp add: well_formed_def)

lemma listener_at_closures: "listener_at (w\<lparr>closures := n\<rparr>) ev j = listener_at w ev j"
  by (simp add: listener_at_def elem_def array_at_def split: option.splits)

lemma total_slots_closures: "total_slots (w\<lparr>closures := n\<rparr>) = total_slots w"
  by (simp add: total_slots_def)

lemma menu_action_is_function: "is_function (menu_action_of grp w i)"
  by (simp add: menu_action_of_def createMenuAction_def)

lemma register_prefix:
  assumes "well_formed w"
  shows "well_formed (foldl (register_step grp typeNames) w [0..<m]) \<and>
         closures (foldl (register_step grp typeNames) w [0..<m]) = closures w + m \<and>
         calls (foldl (register_step grp typeNames) w [0..<m]) = calls w \<and>
         total_slots (foldl (register_step grp typeNames) w [0..<m]) = total_slots w + m \<and>
         (\<forall>i < m. \<exists>j. listener_at (foldl (register_step grp typeNames) w [0..<m]) (typeNames ! i) j
                         = menu_action_of grp w i)"
proof (induction m)
  case 0
  then show ?case using assms by simp
next
  case (Suc m)
  let ?u = "foldl (register_step grp typeNames) w [0..<m]"
  let ?f = "if is_function (callback (actions grp ! m)) then MenuAction (closures ?u) (callback (actions grp ! m))
            else EmptyAction (closures ?u)"
  let ?u1 = "?u\<lparr>closures := Suc (closures ?u)\<rparr>"
  have step: "foldl (register_step grp typeNames) w [0..<Suc m] = snd (add (typeNames ! m) ?f ?u1)"
    by (simp add: register_step_eq)
  from Suc.IH have wf: "well_formed ?u" and cl: "closures ?u = closures w + m" and
    ca: "calls ?u = calls w" and ts: "total_slots ?u = total_slots w + m" and
    ls: "\<forall>i < m. \<exists>j. listener_at ?u (typeNames ! i) j = menu_action_of grp w i"
    by simp_all
  have wf1: "well_formed ?u1" using wf by (simp add: well_formed_closures)
  have f: "?f = menu_action_of grp w m"
    by (simp add: menu_action_of_def createMenuAction_def cl)
  have "\<exists>j. listener_at (snd (add (typeNames ! m) ?f ?u1)) (typeNames ! i) j = menu_action_of grp w i"
    if i: "i < Suc m" for i
  proof (cases "i = m")
    case True
    then show ?thesis using add_stores_listener [OF wf1, of "typeNames ! m" ?f] f by metis
  next
    case False
    with i ls obtain j where "listener_at ?u (typeNames ! i) j = menu_action_of grp w i"
      using less_Suc_eq by blast
    then have "listener_at ?u1 (typeNames ! i) j = menu_action_of grp w i"
      by (simp add: listener_at_closures)
    moreover have "menu_action_of grp w i \<noteq> JUndefined"
      using menu_action_is_function [of grp w i] by auto
    ultimately show ?thesis using add_keeps_listener by blast
  qed
  moreover have "well_formed (snd (add (typeNames ! m) ?f ?u1))"
    using wf1 by (rule well_formed_add)
  moreover have "closures (snd (add (typeNames ! m) ?f ?u1)) = closures w + Suc m"
    by (simp add: add_closures cl)
  moreover have "calls (snd (add (typeNames ! m) ?f ?u1)) = calls w"
    by (simp add: add_calls ca)
  moreover have "total_slots (snd (add (typeNames ! m) ?f ?u1)) = total_slots w + Suc m"
    using add_total_slots [OF wf1] ts by (simp add: total_slots_closures)
  ultimately show ?case unfolding step by blast
qed

lemma remove_calls: "calls (remove e i w) = calls w"
  by (simp add: remove_def split: option.splits)

lemma removeAll_calls: "calls (removeAll e w) = calls w"
  by (simp add: removeAll_def split: option.splits)

lemma run_ops_calls: "calls (run_ops ops w) = calls w"
  unfolding run_ops_def
proof (induction ops arbitrary: w)
  case Nil
  show ?case by simp
next
  case (Cons x ops)
  have "calls (run_op w x) = calls w"
    by (cases x) (simp_all add: add_calls remove_calls removeAll_calls)
  then show ?case using Cons.IH [of "run_op w x"] by simp
qed

lemma well_formed_calls: "well_formed (w\<lparr>calls := c\<rparr>) = well_formed w"
  by (simp add: well_formed_def)

lemma well_formed_run_ops: "well_formed w \<Longrightarrow> well_formed (run_ops ops w)"
  unfolding run_ops_def
proof (induction ops arbitrary: w)
  case Nil
  then show ?case by simp
next
  case (Cons x ops)
  have "well_formed (run_op w x)"
    using Cons.prems
    by (cases x) (simp_all add: well_formed_add well_formed_remove well_formed_removeAll)
  then show ?case using Cons.IH by simp
qed

lemma well_formed_invoke:
  "invoke env e args w = Inr (r, w') \<Longrightarrow> well_formed w \<Longrightarrow> well_formed w'"
proof (induction env e args w arbitrary: r w' rule: invoke.induct)
  case (1 env k args w)
  then have "w' = run_ops (fst (env k args)) (w\<lparr>calls := calls w @ [(k, args)]\<rparr>)"
    by (auto split: sum.splits)
  then show ?case using "1.prems"(2) by (simp add: well_formed_run_ops well_formed_calls)
next
  case (2 env n func args w)
  then show ?case
    by (auto simp: Let_def split: if_splits sum.splits)
qed simp_all

lemma well_formed_each_loop:
  assumes "each_loop (notify_body env data) a idx ((rv, seen), w) = Inr ((rv', seen'), w')"
    and "well_formed w"
  shows "well_formed w'"
  using assms
proof (induction idx arbitrary: rv seen w)
  case Nil
  then show ?case by simp
next
  case (Cons i rest)
  from Cons.prems(1) obtain r rv1 seen1 w1 where
    body: "notify_body env data i (elem w a i) ((rv, seen), w) = Inr (r, (rv1, seen1), w1)"
    by (auto split: sum.splits)
  from notify_body_step [OF body] have r: "r = JUndefined" and
    "w1 = w \<or> (\<exists>args res. invoke env (elem w a i) args w = Inr (res, w1))"
    by auto
  then have wf1: "well_formed w1" using Cons.prems(2) well_formed_invoke by blast
  from Cons.prems(1) body r have
    "each_loop (notify_body env data) a rest ((rv1, seen1), w1) = Inr ((rv', seen'), w')"
    by simp
  from Cons.IH [OF this wf1] show ?case .
qed

lemma well_formed_notify:
  assumes "notify env event data w = Inr (b, seen, w')" and "well_formed w"
  shows "well_formed w'"
  using notify_cases [OF assms(1)] assms(2) well_formed_each_loop by blast

lemma well_formed_register_all:
  "well_formed w \<Longrightarrow> well_formed (register_all grp typeNames w)"
  unfolding register_all_def using register_prefix by blast

lemma invoke_calls:
  "invoke env e args w = Inr (r, w') \<Longrightarrow> calls w' = calls w @ recorded_calls e args"
proof (induction env e args w arbitrary: r w' rule: invoke.induct)
  case (1 env k args w)
  then have "w' = run_ops (fst (env k args)) (w\<lparr>calls := calls w @ [(k, args)]\<rparr>)"
    by (auto split: sum.splits)
  then show ?case by (simp add: run_ops_calls)
next
  case (2 env n func args w)
  then show ?case
    by (cases args) (auto simp: Let_def split: if_splits sum.splits)
qed simp_all

lemma grows_length:
  assumes "grows w u"
  shows "length (array_at w a) \<le> length (array_at u a)"
  using assms by (auto simp: grows_def array_at_def)

lemma grows_keeps_non_function:
  assumes "grows w u" and "i < length (array_at w a)" and "\<not> is_function (elem w a i)"
  shows "\<not> is_function (elem u a i)"
proof -
  from grows_elem [OF assms(1,2)] have "elem u a i = array_at w a ! i \<or> elem u a i = JBool False" .
  moreover have "elem w a i = array_at w a ! i" using assms(2) by (simp add: elem_def)
  ultimately show ?thesis using assms(3) by auto
qed

lemma notify_loop_calls:
  assumes "each_loop (notify_body env data) a idx ((rv, seen), w) = Inr ((rv', seen'), w')"
    and "\<forall>i \<in> set idx. i < length (array_at w a)"
    and "sorted_wrt (<) idx"
  shows "\<exists>new. seen' = seen @ new \<and>
           calls w' = calls w @ concat (map (\<lambda>x. recorded_calls (callee x) (arguments x)) new) \<and>
           (\<forall>i \<in> set idx. is_function (elem w' a i) \<longrightarrow> i \<in> slot ` set new)"
  using assms
proof (induction idx arbitrary: rv seen w)
  case Nil
  then show ?case by simp
next
  case (Cons i rest)
  from Cons.prems(1) obtain r rv1 seen1 w1 where
    body: "notify_body env data i (elem w a i) ((rv, seen), w) = Inr (r, (rv1, seen1), w1)"
    by (auto split: sum.splits)
  note step = notify_body_step [OF body]
  from step have r: "r = JUndefined" and g1: "grows w w1" by simp_all
  from Cons.prems(1) body r have
    rest: "each_loop (notify_body env data) a rest ((rv1, seen1), w1) = Inr ((rv', seen'), w')"
    by simp
  have bound: "\<forall>j \<in> set rest. j < length (array_at w1 a)"
    using Cons.prems(2) grows_length [OF g1, of a] by fastforce
  have srt: "sorted_wrt (<) rest" using Cons.prems(3) by simp
  from Cons.IH [OF rest bound srt] obtain new where
    seen': "seen' = seen1 @ new" and
    ca: "calls w' = calls w1 @ concat (map (\<lambda>x. recorded_calls (callee x) (arguments x)) new)" and
    act: "\<forall>j \<in> set rest. is_function (elem w' a j) \<longrightarrow> j \<in> slot ` set new"
    by blast
  have i: "i < length (array_at w a)" using Cons.prems(2) by simp
  have g2: "grows w1 w'" using notify_loop [OF rest srt] by blast
  have g: "grows w w'" using g1 g2 by (rule grows_trans)
  from step consider
    (skip) "\<not> is_function (elem w a i)" "seen1 = seen" "w1 = w" |
    (call) args res where "is_function (elem w a i)"
      "invoke env (elem w a i) args w = Inr (res, w1)"
      "seen1 = seen @ [\<lparr>slot = i, callee = elem w a i, arguments = args, returned = res\<rparr>]"
    by blast
  then show ?case
  proof cases
    case skip
    have "\<not> is_function (elem w' a i)"
      using grows_keeps_non_function [OF g i skip(1)] .
    then show ?thesis using seen' ca act skip
      by (intro exI [of _ new]) auto
  next
    case call
    let ?x = "\<lparr>slot = i, callee = elem w a i, arguments = args, returned = res\<rparr>"
    from invoke_calls [OF call(2)] have "calls w1 = calls w @ recorded_calls (elem w a i) args" .
    then show ?thesis using seen' ca act call(3)
      by (intro exI [of _ "?x # new"]) auto
  qed
qed

lemma notify_calls:
  assumes "notify env event data w = Inr (b, seen, w')"
  shows "calls w' = calls w @ concat (map (\<lambda>x. recorded_calls (callee x) (arguments x)) seen) \<and>
         (\<forall>a i. listeners w event = Some a \<and> i < length (array_at w a) \<and>
                  is_function (elem w' a i) \<longrightarrow> i \<in> slot ` set seen)"
  using notify_cases [OF assms]
proof (elim disjE exE conjE)
  assume "listeners w event = None" "seen = []" "w' = w"
  then show ?thesis by simp
next
  fix a
  assume a: "listeners w event = Some a"
    and loop: "each_loop (notify_body env data) a [0..<length (array_at w a)] ((True, []), w)
              = Inr ((b, seen), w')"
  have "\<forall>i \<in> set [0..<length (array_at w a)]. i < length (array_at w a)" by simp
  moreover have "sorted_wrt (<) [0..<length (array_at w a)]" by simp
  ultimately show ?thesis using notify_loop_calls [OF loop] a by auto
qed

section \<open>The listener registry: claims\<close>

text \<open>
  Claim C7. Removing a slot changes neither the index that a later \<open>add\<close> returns, for
  the same event type or any other, nor the length of any sequence, nor the value found
  at any other slot: \<open>remove(event, i)\<close> only overwrites slot \<open>i\<close> of \<open>event\<close>.
\<close>

theorem remove_keeps_indices:
  assumes "well_formed w"
  shows "fst (add e cb (remove event i w)) = fst (add e cb w) \<and>
         map_option length (slots (remove event i w) e) = map_option length (slots w e) \<and>
         ((e, j) \<noteq> (event, i) \<longrightarrow> listener_at (remove event i w) e j = listener_at w e j)"
proof -
  have len: "length (array_at (remove event i w) a) = length (array_at w a)" for a
    by (auto simp: remove_def array_at_def nth_list_update split: option.splits)
  have lis: "listeners (remove event i w) = listeners w"
    by (auto simp: remove_def split: option.splits)
  have 1: "fst (add e cb (remove event i w)) = fst (add e cb w)"
    using len by (simp add: add_def lis split: option.splits)
  have 2: "map_option length (slots (remove event i w) e) = map_option length (slots w e)"
    using len by (simp add: slots_def lis split: option.splits)
  have 3: "listener_at (remove event i w) e j = listener_at w e j" if ne: "(e, j) \<noteq> (event, i)"
  proof (cases "listeners w e")
    case None
    then show ?thesis by (simp add: listener_at_def lis)
  next
    case (Some a)
    show ?thesis
    proof (cases "listeners w event")
      case None
      then show ?thesis by (simp add: remove_def)
    next
      case (Some b)
      have "a = b \<Longrightarrow> e = event"
        using assms Some \<open>listeners w e = Some a\<close> unfolding well_formed_def by blast
      then have "a \<noteq> b \<or> j \<noteq> i" using ne by auto
      then have "elem (remove event i w) a j = elem w a j"
        using Some by (auto simp: remove_def elem_def array_at_def nth_list_update)
      then show ?thesis using \<open>listeners w e = Some a\<close> by (simp add: listener_at_def lis)
    qed
  qed
  show ?thesis using 1 2 3 by blast
qed

theorem remove_keeps_indices_witness:
  "fst (add ''x'' (UserFn 2) (remove ''x'' 0 (snd (add ''x'' (UserFn 1) (snd (add ''x'' (UserFn 0) Listeners)))))) = 2 \<and>
   listener_at (remove ''x'' 0 (snd (add ''x'' (UserFn 1) (snd (add ''x'' (UserFn 0) Listeners))))) ''x'' 1 = UserFn 1 \<and>
   listener_at (remove ''x'' 0 (snd (add ''x'' (UserFn 1) (snd (add ''x'' (UserFn 0) Listeners))))) ''x'' 0 = JBool False"
proof -
  let ?w = "snd (add ''x'' (UserFn 1) (snd (add ''x'' (UserFn 0) Listeners)))"
  have wf: "well_formed ?w"
    by (intro well_formed_add well_formed_Listeners)
  have ne: "(''x'', 1::nat) \<noteq> (''x'', 0)" by simp
  from remove_keeps_indices [OF wf, of "''x''" "UserFn 2" "''x''" 0 1] ne
  have "fst (add ''x'' (UserFn 2) (remove ''x'' 0 ?w)) = fst (add ''x'' (UserFn 2) ?w)"
    and "listener_at (remove ''x'' 0 ?w) ''x'' 1 = listener_at ?w ''x'' 1"
    by blast+
  moreover have "fst (add ''x'' (UserFn 2) ?w) = 2"
    by (simp add: add_def Listeners_def array_at_def)
  moreover have "listener_at ?w ''x'' 1 = UserFn 1"
    by (simp add: listener_at_def add_def Listeners_def array_at_def elem_def)
  moreover have "listener_at (remove ''x'' 0 ?w) ''x'' 0 = JBool False"
    by (simp add: listener_at_def remove_def add_def Listeners_def array_at_def elem_def)
  ultimately show ?thesis by simp
qed

text \<open>
  Claim C10. \<open>removeAll\<close> called without an argument and \<open>removeAll\<close> called with the
  empty string both replace the whole registry: afterwards no event type has a sequence.
\<close>

theorem removeAll_falsy_clears_registry:
  "listeners (removeAll None w) = Map.empty \<and> listeners (removeAll (Some '''') w) = Map.empty \<and>
   slots (removeAll None w) e = None \<and> slots (removeAll (Some '''') w) e = None"
  by (simp add: removeAll_def slots_def)

text \<open>
  With a name that is not empty, only the sequence of that event type is replaced, by an
  empty one.
\<close>

lemma removeAll_named_keeps_others:
  "name \<noteq> [] \<Longrightarrow> e \<noteq> name \<Longrightarrow> well_formed w \<Longrightarrow>
   slots (removeAll (Some name) w) e = slots w e \<and> slots (removeAll (Some name) w) name = Some []"
proof -
  assume name: "name \<noteq> []" and e: "e \<noteq> name" and wf: "well_formed w"
  have "a < length (arrays w)" if "listeners w e = Some a" for a
    using wf that unfolding well_formed_def by blast
  then show ?thesis
    using name e
    by (auto simp: removeAll_def slots_def array_at_def nth_append split: option.splits)
qed

text \<open>
  Claim C8, at the input where a listener has been added for \<open>x\<close> and is then removed by
  callback: the call throws a TypeError instead of returning \<open>true\<close>, since \<open>this\<close> inside
  the function given to \<open>$.each\<close> is the listener, which has no \<open>remove\<close>.
\<close>

theorem removeByCallback_match_throws:
  "slots (snd (add ''x'' (UserFn 0) Listeners)) ''x'' = Some [UserFn 0] \<and>
   removeByCallback quiet_env ''x'' (UserFn 0) (snd (add ''x'' (UserFn 0) Listeners)) = Inl TypeError"
  by (simp add: removeByCallback_def each_def removeByCallback_body_def add_def Listeners_def
      array_at_def elem_def slots_def)

text \<open>On no input does \<open>removeByCallback\<close> return \<open>true\<close>.\<close>

lemma removeByCallback_never_true: "removeByCallback env event cb w \<noteq> Inr (True, w')"
  by (simp add: removeByCallback_def split: sum.splits prod.splits)

text \<open>
  For a callback that is a function: a TypeError when it is in a slot of the event type,
  \<open>false\<close> and an unchanged registry when it is not.
\<close>

lemma removeByCallback_loop:
  assumes "is_function cb" and "\<forall>i \<in> set idx. i < length (array_at w a)"
  shows "each_loop (removeByCallback_body env event cb) a idx ((), w) =
           (if \<exists>i \<in> set idx. array_at w a ! i = cb then Inl TypeError else Inr ((), w))"
  using assms(2)
proof (induction idx)
  case Nil
  then show ?case by simp
next
  case (Cons i rest)
  then have e: "elem w a i = array_at w a ! i" by (simp add: elem_def)
  have fld: "field ''remove'' cb = JUndefined" using assms(1) by (cases cb) simp_all
  show ?case
  proof (cases "array_at w a ! i = cb")
    case True
    then show ?thesis by (simp add: e removeByCallback_body_def fld)
  next
    case False
    then show ?thesis using Cons by (simp add: e removeByCallback_body_def)
  qed
qed

lemma removeByCallback_function:
  assumes "is_function cb"
  shows "removeByCallback env event cb w =
           (case slots w event of
              None \<Rightarrow> Inr (False, w)
            | Some xs \<Rightarrow> if cb \<in> set xs then Inl TypeError else Inr (False, w))"
proof (cases "listeners w event")
  case None
  then show ?thesis by (simp add: removeByCallback_def each_def slots_def)
next
  case (Some a)
  have "\<forall>i \<in> set [0..<length (array_at w a)]. i < length (array_at w a)" by simp
  from removeByCallback_loop [OF assms this, of env event]
  show ?thesis using Some
    by (auto simp: removeByCallback_def each_def slots_def in_set_conv_nth)
qed

section \<open>The menu action group registrar: claims\<close>

text \<open>
  Claim C1. When the list of event type names that comes back has another length than
  the list of actions, the reply handler of \<open>registerMenuActionGroup\<close> returns with the
  world as it was: no listener is added to the registry and no function is called, the
  completion callback included.
\<close>

theorem mismatch_aborts_registration:
  "length typeNames \<noteq> length (actions grp) \<Longrightarrow>
   on_reply (registerMenuActionGroup grp completion) env typeNames w = Inr w"
  by (simp add: registerMenuActionGroup_def on_type_names_def)

theorem mismatch_aborts_registration_witness:
  "length [''t1'', ''t2''] \<noteq> length (actions three_actions) \<and>
   on_reply (registerMenuActionGroup three_actions (UserFn 0)) quiet_env [''t1'', ''t2''] Listeners
     = Inr Listeners"
proof -
  have h: "length [''t1'', ''t2''] \<noteq> length (actions three_actions)"
    by (simp add: three_actions_def)
  show ?thesis
    using h mismatch_aborts_registration [OF h, of "UserFn 0" quiet_env Listeners] by simp
qed

text \<open>
  Claim C2. When the list of event type names that comes back has the length of the list
  of actions, the reply handler first runs the registration loop and then calls the
  completion callback with the list of names. The loop calls no function and adds as many
  slots as there are names. After it, for each index \<open>i\<close>, a slot of the \<open>i\<close>-th name
  holds the closure built for the \<open>i\<close>-th action; when that action's callback is a
  function, the closure is the adapter around it, and calling the adapter with a payload
  is calling the callback with the one argument \<open>payload.id\<close> and dropping its result.
  A completion callback that returns leaves the record of calls longer by its own call,
  whose one argument is the list of names.
\<close>

theorem matching_reply_registers_actions:
  assumes "length typeNames = length (actions grp)" and "well_formed w"
  shows "on_reply (registerMenuActionGroup grp completion) env typeNames w =
           (case invoke env completion [JArr (map JStr typeNames)] (register_all grp typeNames w) of
              Inl err \<Rightarrow> Inl err
            | Inr (r, w') \<Rightarrow> Inr w') \<and>
         calls (register_all grp typeNames w) = calls w \<and>
         total_slots (register_all grp typeNames w) = total_slots w + length typeNames \<and>
         (\<forall>i < length typeNames.
            (\<exists>j. listener_at (register_all grp typeNames w) (typeNames ! i) j
                   = menu_action_of grp w i) \<and>
            (is_function (callback (actions grp ! i)) \<longrightarrow>
               menu_action_of grp w i = MenuAction (closures w + i) (callback (actions grp ! i)) \<and>
               (\<forall>data u. data \<noteq> JUndefined \<and> data \<noteq> JNull \<longrightarrow>
                  invoke env (menu_action_of grp w i) [data] u =
                    (case invoke env (callback (actions grp ! i)) [field ''id'' data] u of
                       Inl err \<Rightarrow> Inl err
                     | Inr (r, u') \<Rightarrow> Inr (JUndefined, u'))))) \<and>
         (\<forall>c r. completion = UserFn c \<and> snd (env c [JArr (map JStr typeNames)]) = Inr r \<longrightarrow>
            (\<exists>w'. on_reply (registerMenuActionGroup grp completion) env typeNames w = Inr w' \<and>
                   calls w' = calls w @ [(c, [JArr (map JStr typeNames)])]))"
proof -
  let ?names = "JArr (map JStr typeNames)"
  let ?u = "register_all grp typeNames w"
  have reply: "on_reply (registerMenuActionGroup grp completion) env typeNames w =
           (case invoke env completion [?names] ?u of Inl err \<Rightarrow> Inl err | Inr (r, w') \<Rightarrow> Inr w')"
    using assms(1) by (simp add: registerMenuActionGroup_def on_type_names_def)
  note pre = register_prefix [OF assms(2), of grp typeNames "length typeNames",
      folded register_all_def]
  from pre have ca: "calls ?u = calls w" by blast
  from pre have ts: "total_slots ?u = total_slots w + length typeNames" by blast
  from pre have ls: "\<forall>i < length typeNames.
      \<exists>j. listener_at ?u (typeNames ! i) j = menu_action_of grp w i"
    by blast
  have ad: "menu_action_of grp w i = MenuAction (closures w + i) (callback (actions grp ! i)) \<and>
            (\<forall>data u. data \<noteq> JUndefined \<and> data \<noteq> JNull \<longrightarrow>
               invoke env (menu_action_of grp w i) [data] u =
                 (case invoke env (callback (actions grp ! i)) [field ''id'' data] u of
                    Inl err \<Rightarrow> Inl err
                  | Inr (r, u') \<Rightarrow> Inr (JUndefined, u')))"
    if "is_function (callback (actions grp ! i))" for i
    using that by (simp add: menu_action_of_def createMenuAction_def)
  have fin: "\<exists>w'. on_reply (registerMenuActionGroup grp completion) env typeNames w = Inr w' \<and>
                   calls w' = calls w @ [(c, [?names])]"
    if "completion = UserFn c \<and> snd (env c [?names]) = Inr r" for c r
    using that reply by (auto simp: run_ops_calls ca)
  show ?thesis using reply ca ts ls ad fin by blast
qed

theorem matching_reply_registers_actions_witness:
  "\<exists>w'. on_reply (registerMenuActionGroup three_actions (UserFn 0)) quiet_env
          [''t1'', ''t2'', ''t3''] Listeners = Inr w' \<and>
        calls w' = [(0, [JArr [JStr ''t1'', JStr ''t2'', JStr ''t3'']])] \<and>
        slots w' ''t1'' = Some [MenuAction 0 (UserFn 1)] \<and>
        slots w' ''t2'' = Some [MenuAction 1 (UserFn 2)] \<and>
        slots w' ''t3'' = Some [MenuAction 2 (UserFn 3)] \<and>
        total_slots w' = 3 \<and>
        map_option calls (world_after (notify quiet_env ''t2'' element_payload w')) =
          Some [(0, [JArr [JStr ''t1'', JStr ''t2'', JStr ''t3'']]), (2, [JStr ''el-5''])]"
proof -
  let ?tn = "[''t1'', ''t2'', ''t3'']"
  let ?u = "register_all three_actions ?tn Listeners"
  let ?w' = "?u\<lparr>calls := [(0, [JArr (map JStr ?tn)])]\<rparr>"
  have len: "length ?tn = length (actions three_actions)"
    by (simp add: three_actions_def)
  note reg = matching_reply_registers_actions [OF len well_formed_Listeners, of "UserFn 0" quiet_env]
  from reg have ca: "calls ?u = []" by (simp add: Listeners_def)
  have inv: "invoke quiet_env (UserFn 0) [JArr (map JStr ?tn)] ?u = Inr (JUndefined, ?w')"
    by (simp add: quiet_env_def run_ops_def ca)
  from reg have "on_reply (registerMenuActionGroup three_actions (UserFn 0)) quiet_env ?tn Listeners
      = (case invoke quiet_env (UserFn 0) [JArr (map JStr ?tn)] ?u of
           Inl err \<Rightarrow> Inl err
         | Inr (r, w') \<Rightarrow> Inr w')"
    by blast
  then have reply: "on_reply (registerMenuActionGroup three_actions (UserFn 0)) quiet_env ?tn Listeners
                 = Inr ?w'"
    unfolding inv by simp
  have up: "[0..<length ?tn] = [0, 1, 2]" by (simp add: upt_rec)
  have u: "?u = \<lparr>listeners = [''t1'' \<mapsto> 0, ''t2'' \<mapsto> 1, ''t3'' \<mapsto> 2],
                 arrays = [[MenuAction 0 (UserFn 1)], [MenuAction 1 (UserFn 2)], [MenuAction 2 (UserFn 3)]],
                 closures = 3, calls = []\<rparr>"
    unfolding register_all_def up
    by (simp add: register_step_def createMenuAction_def three_actions_def add_def Listeners_def
        numeral_2_eq_2 numeral_3_eq_3)
  have 1: "calls ?w' = [(0, [JArr [JStr ''t1'', JStr ''t2'', JStr ''t3'']])]" by simp
  have 2: "slots ?w' ''t1'' = Some [MenuAction 0 (UserFn 1)]"
    "slots ?w' ''t2'' = Some [MenuAction 1 (UserFn 2)]"
    "slots ?w' ''t3'' = Some [MenuAction 2 (UserFn 3)]"
    unfolding u by (simp_all add: slots_def array_at_def)
  have 3: "total_slots ?w' = 3" unfolding u by (simp add: total_slots_def)
  have 4: "map_option calls (world_after (notify quiet_env ''t2'' element_payload ?w')) =
          Some [(0, [JArr [JStr ''t1'', JStr ''t2'', JStr ''t3'']]), (2, [JStr ''el-5''])]"
    unfolding u by (simp add: eval_defs element_payload_def quiet_env_def)
  show ?thesis using reply 1 2 3 4 by blast
qed

text \<open>
  Claim C3 as stated fails: the object given to the request primitive for a group of
  three actions with callbacks holds those callbacks.
\<close>

theorem payload_carries_callbacks:
  "carries_callback (payload (registerMenuActionGroup three_actions (UserFn 0)))"
  by (simp add: registerMenuActionGroup_def carries_callback_def three_actions_def)

text \<open>
  Claim C3, amended. \<open>registerMenuActionGroup\<close> gives the group descriptor to the request
  primitive as it received it, under the name \<open>register-menu-action-group\<close>; the
  descriptor given holds a callback exactly when the one received does.
\<close>

theorem payload_is_group_unchanged:
  "payload (registerMenuActionGroup grp completion) = grp \<and>
   callSpec (registerMenuActionGroup grp completion) = ''register-menu-action-group'' \<and>
   carries_callback (payload (registerMenuActionGroup grp completion)) = carries_callback grp"
  by (simp add: registerMenuActionGroup_def)

section \<open>notify: claims\<close>



text \<open>
  Claim C5. Take the registry in any state that calls of \<open>add\<close> and \<open>remove\<close> have left
  it in, with \<open>xs\<close> the slots of the event type. Whenever \<open>notify\<close> returns, the calls of
  app functions it has added to the record are those of the calls it made, in order; the
  calls it made go through the slots at strictly rising indices, so each slot at most
  once and in the order of registration; each is of the function that was in that slot
  when \<open>notify\<close> started; and every slot that still holds a function afterwards was
  called. When the listeners run without exception and leave the registry alone,
  \<open>notify\<close> returns, and the calls made are, in this order, one call for each slot that
  holds a function, from the lowest index to the highest: each such slot once, no other
  slot (a slot overwritten with \<open>false\<close> by \<open>remove\<close> holds no function), whatever the
  earlier calls returned. The record of calls grows by exactly these calls, and the slots
  are the same afterwards.
\<close>

theorem notify_invokes_active_slots:
  "(notify env event data w = Inr (b, seen, w') \<and> slots w event = Some xs \<longrightarrow>
      calls w' = calls w @ concat (map (\<lambda>x. recorded_calls (callee x) (arguments x)) seen) \<and>
      sorted_wrt (<) (map slot seen) \<and>
      (\<forall>x \<in> set seen. slot x < length xs \<and> callee x = xs ! slot x \<and> is_function (callee x)) \<and>
      (\<forall>i. i < length xs \<and> listeners w' event = listeners w event \<and>
            is_function (listener_at w' event i) \<longrightarrow> i \<in> slot ` set seen)) \<and>
   (slots w event = Some xs \<and> passed_arguments data = Inr args \<and>
    (\<forall>e \<in> set xs. is_function e \<longrightarrow>
       (\<forall>u. \<exists>r u'. invoke env e args u = Inr (r, u') \<and>
          arrays u' = arrays u \<and> listeners u' = listeners u)) \<longrightarrow>
      (\<exists>b seen w'.
         notify env event data w = Inr (b, seen, w') \<and>
         map slot seen = filter (\<lambda>i. is_function (xs ! i)) [0..<length xs] \<and>
         map callee seen = filter is_function xs \<and>
         (\<forall>x \<in> set seen. arguments x = args \<and> callee x = xs ! slot x) \<and>
         distinct (map slot seen) \<and> sorted (map slot seen) \<and>
         slots w' event = Some xs \<and>
         calls w' = calls w @ concat (map (\<lambda>e. recorded_calls e args) (filter is_function xs))))"
proof (intro conjI impI)
  assume h: "notify env event data w = Inr (b, seen, w') \<and> slots w event = Some xs"
  then have run: "notify env event data w = Inr (b, seen, w')" and sl: "slots w event = Some xs"
    by simp_all
  from sl obtain a where a: "listeners w event = Some a" and xs: "xs = array_at w a"
    by (auto simp: slots_def split: option.splits)
  from notify_calls [OF run]
  show "calls w' = calls w @ concat (map (\<lambda>x. recorded_calls (callee x) (arguments x)) seen)"
    by blast
  from notify_entries [OF run] show "sorted_wrt (<) (map slot seen)" by blast
  from notify_entries [OF run] sl
  show "\<forall>x \<in> set seen. slot x < length xs \<and> callee x = xs ! slot x \<and> is_function (callee x)"
    by fastforce
  show "\<forall>i. i < length xs \<and> listeners w' event = listeners w event \<and>
            is_function (listener_at w' event i) \<longrightarrow> i \<in> slot ` set seen"
  proof (intro allI impI)
    fix i
    assume i: "i < length xs \<and> listeners w' event = listeners w event \<and>
            is_function (listener_at w' event i)"
    then have "is_function (elem w' a i)" using a by (auto simp: listener_at_def)
    with notify_calls [OF run] a i xs show "i \<in> slot ` set seen" by blast
  qed
next
  assume h: "slots w event = Some xs \<and> passed_arguments data = Inr args \<and>
    (\<forall>e \<in> set xs. is_function e \<longrightarrow>
       (\<forall>u. \<exists>r u'. invoke env e args u = Inr (r, u') \<and>
          arrays u' = arrays u \<and> listeners u' = listeners u))"
  then have sl0: "slots w event = Some xs" and pa: "passed_arguments data = Inr args" and
    quiet: "\<forall>e \<in> set xs. is_function e \<longrightarrow>
       (\<forall>u. \<exists>r u'. invoke env e args u = Inr (r, u') \<and>
          arrays u' = arrays u \<and> listeners u' = listeners u)"
    by simp_all
  from notify_plain [OF sl0 quiet pa] obtain b seen w' where
    run: "notify env event data w = Inr (b, seen, w')" and
    same: "arrays w' = arrays w" "listeners w' = listeners w" and
    sl: "map slot seen = filter (\<lambda>i. is_function (xs ! i)) [0..<length xs]" and
    cs: "map callee seen = filter is_function xs" and
    ar: "\<forall>x \<in> set seen. arguments x = args"
    by blast
  from notify_entries [OF run] sl0 have
    at: "\<forall>x \<in> set seen. callee x = xs ! slot x"
    by fastforce
  have d: "distinct (map slot seen)" by (simp add: sl)
  have "sorted [0..<length xs]" by simp
  then have s: "sorted (map slot seen)" unfolding sl by (rule sorted_wrt_filter)
  have keep: "slots w' event = Some xs"
    using same sl0 by (auto simp: slots_def array_at_def split: option.splits)
  have "map (\<lambda>x. recorded_calls (callee x) (arguments x)) seen
          = map (\<lambda>x. recorded_calls (callee x) args) seen"
    using ar by simp
  also have "\<dots> = map (\<lambda>e. recorded_calls e args) (map callee seen)"
    by (simp add: comp_def)
  finally have "calls w' = calls w @ concat (map (\<lambda>e. recorded_calls e args) (filter is_function xs))"
    using notify_calls [OF run] cs by simp
  then show "\<exists>b seen w'.
         notify env event data w = Inr (b, seen, w') \<and>
         map slot seen = filter (\<lambda>i. is_function (xs ! i)) [0..<length xs] \<and>
         map callee seen = filter is_function xs \<and>
         (\<forall>x \<in> set seen. arguments x = args \<and> callee x = xs ! slot x) \<and>
         distinct (map slot seen) \<and> sorted (map slot seen) \<and>
         slots w' event = Some xs \<and>
         calls w' = calls w @ concat (map (\<lambda>e. recorded_calls e args) (filter is_function xs))"
    using run sl cs ar at d s keep by blast
qed

theorem notify_invokes_active_slots_witness:
  "slots after_removal ''x'' = Some [UserFn 1, JBool False, UserFn 2] \<and>
   calls after_removal = [] \<and>
   invocations (notify veto_env ''x'' (JStr ''d'') after_removal) =
     [\<lparr>slot = 0, callee = UserFn 1, arguments = [JStr ''d''], returned = JBool False\<rparr>,
      \<lparr>slot = 2, callee = UserFn 2, arguments = [JStr ''d''], returned = JUndefined\<rparr>] \<and>
   map_option calls (world_after (notify veto_env ''x'' (JStr ''d'') after_removal)) =
     Some [(1, [JStr ''d'']), (2, [JStr ''d''])] \<and>
   (\<exists>b seen w'.
      notify veto_env ''x'' (JStr ''d'') after_removal = Inr (b, seen, w') \<and>
      map slot seen = [0, 2] \<and> map callee seen = [UserFn 1, UserFn 2] \<and>
      calls w' = [(1, [JStr ''d'']), (2, [JStr ''d''])])"
proof -
  have sl: "slots after_removal ''x'' = Some [UserFn 1, JBool False, UserFn 2]"
    by (simp add: eval_defs after_removal_def)
  have c0: "calls after_removal = []"
    by (simp add: eval_defs after_removal_def)
  have pa: "passed_arguments (JStr ''d'') = Inr [JStr ''d'']"
    by (simp add: passed_arguments_def positional_def)
  have quiet: "\<forall>e \<in> set [UserFn 1, JBool False, UserFn 2]. is_function e \<longrightarrow>
       (\<forall>u. \<exists>r u'. invoke veto_env e [JStr ''d''] u = Inr (r, u') \<and>
          arrays u' = arrays u \<and> listeners u' = listeners u)"
    by (simp add: veto_env_def run_ops_def)
  have run: "invocations (notify veto_env ''x'' (JStr ''d'') after_removal) =
     [\<lparr>slot = 0, callee = UserFn 1, arguments = [JStr ''d''], returned = JBool False\<rparr>,
      \<lparr>slot = 2, callee = UserFn 2, arguments = [JStr ''d''], returned = JUndefined\<rparr>]"
    by (simp add: eval_defs after_removal_def veto_env_def)
  have after: "map_option calls (world_after (notify veto_env ''x'' (JStr ''d'') after_removal)) =
     Some [(1, [JStr ''d'']), (2, [JStr ''d''])]"
    by (simp add: eval_defs after_removal_def veto_env_def)
  have up: "[0..<length [UserFn 1, JBool False, UserFn 2]] = [0, 1, 2]"
    by (simp add: upt_rec)
  from notify_invokes_active_slots
    [of veto_env "''x''" "JStr ''d''" after_removal _ _ _ "[UserFn 1, JBool False, UserFn 2]"
        "[JStr ''d'']"]
    sl pa quiet
  obtain b seen w' where
    r: "notify veto_env ''x'' (JStr ''d'') after_removal = Inr (b, seen, w')" and
    s: "map slot seen = filter (\<lambda>i. is_function ([UserFn 1, JBool False, UserFn 2] ! i))
          [0..<length [UserFn 1, JBool False, UserFn 2]]" and
    c: "map callee seen = filter is_function [UserFn 1, JBool False, UserFn 2]" and
    k: "calls w' = calls after_removal @
          concat (map (\<lambda>e. recorded_calls e [JStr ''d''])
                    (filter is_function [UserFn 1, JBool False, UserFn 2]))"
    by blast
  from s have "map slot seen = [0, 2]" unfolding up by simp
  moreover from c have "map callee seen = [UserFn 1, UserFn 2]" by simp
  moreover from k have "calls w' = [(1, [JStr ''d'']), (2, [JStr ''d''])]" by (simp add: c0)
  ultimately have "\<exists>b seen w'.
      notify veto_env ''x'' (JStr ''d'') after_removal = Inr (b, seen, w') \<and>
      map slot seen = [0, 2] \<and> map callee seen = [UserFn 1, UserFn 2] \<and>
      calls w' = [(1, [JStr ''d'']), (2, [JStr ''d''])]"
    using r by (intro exI [of _ b] exI [of _ seen] exI [of _ w']) simp
  then show ?thesis using sl c0 run after by simp
qed

text \<open>
  Claim C6 as stated fails for data that has the marker and no argument list: the
  listeners are then called with no argument at all, not with \<open>data\<close>, as the record of
  calls shows.
\<close>

theorem notify_marker_without_list:
  "field ''data'' marker_only = JUndefined \<and>
   map arguments (invocations (notify quiet_env ''x'' marker_only two_listeners)) = [[], []] \<and>
   map arguments (invocations (notify quiet_env ''x'' marker_only two_listeners))
     \<noteq> [[marker_only], [marker_only]] \<and>
   calls two_listeners = [] \<and>
   map_option calls (world_after (notify quiet_env ''x'' marker_only two_listeners))
     = Some [(0, []), (1, [])]"
  by (simp add: eval_defs marker_only_def quiet_env_def)

text \<open>
  Claim C6, amended. The mode depends on the marker alone, which is a field \<open>params\<close>
  equal to \<open>true\<close>. With the marker, every call that \<open>notify\<close> makes passes what
  \<open>data.data\<close> spreads to: its elements when it is an array, no argument when it is
  missing. Without the marker every call passes \<open>data\<close> as the only argument. All calls
  of one pass get the same arguments, and the record of calls grows by the calls of the
  listeners with exactly these arguments.
\<close>

theorem notify_argument_mode:
  assumes "notify env event data w = Inr (b, seen, w')" and "x \<in> set seen"
  shows "positional data = (field ''params'' data = JBool True) \<and>
         (positional data \<longrightarrow> spread (field ''data'' data) = Inr (arguments x)) \<and>
         (positional data \<and> field ''data'' data = JArr ys \<longrightarrow> arguments x = ys) \<and>
         (positional data \<and> field ''data'' data = JUndefined \<longrightarrow> arguments x = []) \<and>
         (\<not> positional data \<longrightarrow> arguments x = [data]) \<and>
         (\<forall>y \<in> set seen. arguments y = arguments x) \<and>
         calls w' = calls w @ concat (map (\<lambda>y. recorded_calls (callee y) (arguments x)) seen)"
proof -
  from notify_entries [OF assms(1)] assms(2)
  have px: "passed_arguments data = Inr (arguments x)" by blast
  from notify_entries [OF assms(1)]
  have "\<forall>y \<in> set seen. passed_arguments data = Inr (arguments y)" by blast
  with px have same: "\<forall>y \<in> set seen. arguments y = arguments x" by simp
  then have "map (\<lambda>y. recorded_calls (callee y) (arguments y)) seen
               = map (\<lambda>y. recorded_calls (callee y) (arguments x)) seen"
    by simp
  with notify_calls [OF assms(1)]
  have "calls w' = calls w @ concat (map (\<lambda>y. recorded_calls (callee y) (arguments x)) seen)"
    by simp
  with px same show ?thesis
    by (auto simp: passed_arguments_def positional_iff split: if_splits)
qed

theorem notify_argument_mode_witness:
  "positional positional_data \<and>
   map arguments (invocations (notify quiet_env ''x'' positional_data two_listeners))
     = [[JNum 7, JStr ''a''], [JNum 7, JStr ''a'']] \<and>
   map_option calls (world_after (notify quiet_env ''x'' positional_data two_listeners))
     = Some [(0, [JNum 7, JStr ''a'']), (1, [JNum 7, JStr ''a''])] \<and>
   \<not> positional (JStr ''d'') \<and>
   map arguments (invocations (notify quiet_env ''x'' (JStr ''d'') two_listeners))
     = [[JStr ''d''], [JStr ''d'']] \<and>
   map_option calls (world_after (notify quiet_env ''x'' (JStr ''d'') two_listeners))
     = Some [(0, [JStr ''d'']), (1, [JStr ''d''])]"
proof -
  let ?p = "\<lparr>slot = 0, callee = UserFn 0, arguments = [JNum 7, JStr ''a''], returned = JUndefined\<rparr>"
  let ?q = "\<lparr>slot = 1, callee = UserFn 1, arguments = [JNum 7, JStr ''a''], returned = JUndefined\<rparr>"
  let ?w = "two_listeners\<lparr>calls := [(0, [JNum 7, JStr ''a'']), (1, [JNum 7, JStr ''a''])]\<rparr>"
  have run: "notify quiet_env ''x'' positional_data two_listeners = Inr (True, [?p, ?q], ?w)"
    by (simp add: eval_defs positional_data_def quiet_env_def)
  have mem: "?p \<in> set [?p, ?q]" by simp
  have pos: "positional positional_data"
    by (simp add: positional_def positional_data_def)
  have fld: "field ''data'' positional_data = JArr [JNum 7, JStr ''a'']"
    by (simp add: positional_data_def)
  have c0: "calls two_listeners = []" by (simp add: eval_defs)
  note mode = notify_argument_mode [OF run mem, of "[JNum 7, JStr ''a'']"]
  from mode pos fld have "arguments ?p = [JNum 7, JStr ''a'']" by blast
  moreover from mode have
    "calls ?w = calls two_listeners @
       concat (map (\<lambda>y. recorded_calls (callee y) (arguments ?p)) [?p, ?q])"
    by blast
  then have "calls ?w = [(0, [JNum 7, JStr ''a'']), (1, [JNum 7, JStr ''a''])]"
    by (simp add: c0)
  moreover have "\<not> positional (JStr ''d'')" by (simp add: positional_def)
  moreover have "map arguments (invocations (notify quiet_env ''x'' (JStr ''d'') two_listeners))
     = [[JStr ''d''], [JStr ''d'']]"
    by (simp add: eval_defs quiet_env_def)
  moreover have "map_option calls (world_after (notify quiet_env ''x'' (JStr ''d'') two_listeners))
     = Some [(0, [JStr ''d'']), (1, [JStr ''d''])]"
    by (simp add: eval_defs quiet_env_def)
  ultimately show ?thesis using run pos by (simp add: invocations_def world_after_def)
qed

text \<open>
  Claim C9. Whatever the listeners add to or remove from the registry while they run,
  every call that \<open>notify\<close> makes is of a function that was in a slot of the event type
  when \<open>notify\<close> started, at the index where it was then, and the indices of the calls
  go up strictly. The record of calls grows by these calls and no other: every app
  function called during the pass is called by a function that was in a slot at the
  start, so a listener added during the pass is not called in it. And when the functions
  that were in the slots at the start run without exception, \<open>notify\<close> returns.
\<close>

theorem notify_runs_on_snapshot:
  "(notify env event data w = Inr (b, seen, w') \<longrightarrow>
      sorted_wrt (<) (map slot seen) \<and>
      (\<forall>x \<in> set seen.
         \<exists>xs. slots w event = Some xs \<and> slot x < length xs \<and> callee x = xs ! slot x) \<and>
      calls w' = calls w @ concat (map (\<lambda>x. recorded_calls (callee x) (arguments x)) seen) \<and>
      (\<forall>c \<in> set (drop (length (calls w)) (calls w')).
         \<exists>xs e as. slots w event = Some xs \<and> e \<in> set xs \<and> is_function e \<and>
                   c \<in> set (recorded_calls e as))) \<and>
   (passed_arguments data = Inr args \<and>
    (\<forall>xs. slots w event = Some xs \<longrightarrow>
       (\<forall>e \<in> set xs. is_function e \<longrightarrow> (\<forall>u. \<exists>r u'. invoke env e args u = Inr (r, u')))) \<longrightarrow>
      (\<exists>b seen w'. notify env event data w = Inr (b, seen, w')))"
proof (intro conjI impI)
  assume run: "notify env event data w = Inr (b, seen, w')"
  from notify_entries [OF run] show "sorted_wrt (<) (map slot seen)" by blast
  from notify_entries [OF run]
  show at: "\<forall>x \<in> set seen.
         \<exists>xs. slots w event = Some xs \<and> slot x < length xs \<and> callee x = xs ! slot x"
    by blast
  from notify_calls [OF run]
  show ca: "calls w' = calls w @ concat (map (\<lambda>x. recorded_calls (callee x) (arguments x)) seen)"
    by blast
  show "\<forall>c \<in> set (drop (length (calls w)) (calls w')).
         \<exists>xs e as. slots w event = Some xs \<and> e \<in> set xs \<and> is_function e \<and>
                   c \<in> set (recorded_calls e as)"
  proof
    fix c
    assume "c \<in> set (drop (length (calls w)) (calls w'))"
    with ca obtain x where x: "x \<in> set seen" and
      c: "c \<in> set (recorded_calls (callee x) (arguments x))"
      by auto
    from at x obtain xs where "slots w event = Some xs" "slot x < length xs"
      "callee x = xs ! slot x"
      by blast
    moreover from notify_entries [OF run] x have "is_function (callee x)" by blast
    ultimately show "\<exists>xs e as. slots w event = Some xs \<and> e \<in> set xs \<and> is_function e \<and>
                   c \<in> set (recorded_calls e as)"
      using c nth_mem by metis
  qed
next
  assume "passed_arguments data = Inr args \<and>
    (\<forall>xs. slots w event = Some xs \<longrightarrow>
       (\<forall>e \<in> set xs. is_function e \<longrightarrow> (\<forall>u. \<exists>r u'. invoke env e args u = Inr (r, u'))))"
  then show "\<exists>b seen w'. notify env event data w = Inr (b, seen, w')"
    using notify_returns by blast
qed

theorem notify_runs_on_snapshot_witness:
  "slots two_listeners ''x'' = Some [UserFn 0, UserFn 1] \<and>
   invocations (notify reentrant_env ''x'' (JStr ''d'') two_listeners) =
     [\<lparr>slot = 0, callee = UserFn 0, arguments = [JStr ''d''], returned = JUndefined\<rparr>] \<and>
   map_option (\<lambda>w. slots w ''x'') (world_after (notify reentrant_env ''x'' (JStr ''d'') two_listeners))
     = Some (Some [UserFn 0, JBool False, UserFn 1]) \<and>
   calls two_listeners = [] \<and>
   map_option calls (world_after (notify reentrant_env ''x'' (JStr ''d'') two_listeners))
     = Some [(0, [JStr ''d''])] \<and>
   (\<exists>b seen w'. notify reentrant_env ''x'' (JStr ''d'') two_listeners = Inr (b, seen, w') \<and>
      sorted_wrt (<) (map slot seen) \<and>
      calls w' = concat (map (\<lambda>x. recorded_calls (callee x) (arguments x)) seen))"
proof -
  have sl: "slots two_listeners ''x'' = Some [UserFn 0, UserFn 1]"
    by (simp add: eval_defs)
  have c0: "calls two_listeners = []" by (simp add: eval_defs)
  have pa: "passed_arguments (JStr ''d'') = Inr [JStr ''d'']"
    by (simp add: passed_arguments_def positional_def)
  have ok: "\<forall>xs. slots two_listeners ''x'' = Some xs \<longrightarrow>
       (\<forall>e \<in> set xs. is_function e \<longrightarrow>
          (\<forall>u. \<exists>r u'. invoke reentrant_env e [JStr ''d''] u = Inr (r, u')))"
    by (simp add: sl reentrant_env_def)
  note snap = notify_runs_on_snapshot [of reentrant_env "''x''" "JStr ''d''" two_listeners]
  from snap [of _ _ _ "[JStr ''d'']"] pa ok obtain b seen w' where
    run: "notify reentrant_env ''x'' (JStr ''d'') two_listeners = Inr (b, seen, w')"
    by blast
  from snap [of b seen w'] run have "sorted_wrt (<) (map slot seen)"
    and "calls w' = calls two_listeners @
           concat (map (\<lambda>x. recorded_calls (callee x) (arguments x)) seen)"
    by blast+
  with run c0 have 1: "\<exists>b seen w'. notify reentrant_env ''x'' (JStr ''d'') two_listeners = Inr (b, seen, w') \<and>
      sorted_wrt (<) (map slot seen) \<and>
      calls w' = concat (map (\<lambda>x. recorded_calls (callee x) (arguments x)) seen)"
    by (intro exI [of _ b] exI [of _ seen] exI [of _ w']) simp
  have 2: "invocations (notify reentrant_env ''x'' (JStr ''d'') two_listeners) =
     [\<lparr>slot = 0, callee = UserFn 0, arguments = [JStr ''d''], returned = JUndefined\<rparr>]"
    by (simp add: eval_defs reentrant_env_def)
  have 3: "map_option (\<lambda>w. slots w ''x'')
       (world_after (notify reentrant_env ''x'' (JStr ''d'') two_listeners))
     = Some (Some [UserFn 0, JBool False, UserFn 1])"
    by (simp add: eval_defs reentrant_env_def)
  have 4: "map_option calls (world_after (notify reentrant_env ''x'' (JStr ''d'') two_listeners))
     = Some [(0, [JStr ''d''])]"
    by (simp add: eval_defs reentrant_env_def)
  show ?thesis using sl c0 1 2 3 4 by blast
qed

end
